theory Spec2Isabelle
  imports Main "HOL-Library.Word"
begin

section \<open>Configuration (config.go)\<close>

text \<open>
  A Go \<^verbatim>\<open>error\<close> is modelled by its message; the nil error is \<open>None\<close> of
  \<open>error option\<close>. A function returning \<^verbatim>\<open>(T, error)\<close> whose callers only use the
  value when the error is nil returns \<open>error + T\<close>.
\<close>

type_synonym error = string

text \<open>
  \<^verbatim>\<open>*regexp.Regexp\<close> is a value of Go's standard library: it is kept opaque, a compiled
  pattern remembering its source text. Compiling and matching are parameters of the model.
\<close>

datatype regexp = Regexp string

text \<open>\<^verbatim>\<open>autocert.HostPolicy\<close>: \<^verbatim>\<open>func(ctx, host) error\<close>; the context is never inspected.\<close>

type_synonym hostPolicy = "string \<Rightarrow> error option"

text \<open>\<^verbatim>\<open>autocert.Cache\<close> is an interface of the ACME library: an opaque handle.\<close>

datatype autocert_Cache = CacheHandle nat

record managed_item =
  Pattern :: string
  Cert :: string
  PrivKey :: string
  Regex :: "regexp option"

text \<open>
  The struct \<^verbatim>\<open>config\<close>, its nested anonymous structs flattened with the name of the
  enclosing field as a prefix. Go's \<^verbatim>\<open>int\<close> fields are only compared with 0 and assigned
  constants, so they are integers. A nil interface, function or pointer is \<open>None\<close>.
\<close>

record config =
  Listen :: string
  PIDFile :: string
  Storage_Type :: string
  Storage_DirCache :: string
  Storage_Redis_Addr :: string
  Storage_Cache :: "autocert_Cache option"
  Managed :: "managed_item list"
  LetsEncrypt_Staging :: bool
  LetsEncrypt_ForceRSA :: bool
  LetsEncrypt_RenewBefore :: int
  LetsEncrypt_Email :: string
  LetsEncrypt_Domains :: "string list"
  LetsEncrypt_REPatterns :: "string list"
  LetsEncrypt_HostPolicy :: "hostPolicy option"
  LetsEncrypt_DirectoryURL :: string
  SelfSigned_Enable :: bool
  SelfSigned_ValidDays :: int
  SelfSigned_Organization :: "string list"
  SelfSigned_Cert :: string
  SelfSigned_PrivKey :: string

text \<open>\<^verbatim>\<open>var Cfg = &config{}\<close>: every field has its zero value.\<close>

definition Cfg_zero :: config where
  "Cfg_zero =
     \<lparr>Listen = [], PIDFile = [], Storage_Type = [], Storage_DirCache = [],
      Storage_Redis_Addr = [], Storage_Cache = None, Managed = [],
      LetsEncrypt_Staging = False, LetsEncrypt_ForceRSA = False,
      LetsEncrypt_RenewBefore = 0, LetsEncrypt_Email = [], LetsEncrypt_Domains = [],
      LetsEncrypt_REPatterns = [], LetsEncrypt_HostPolicy = None,
      LetsEncrypt_DirectoryURL = [], SelfSigned_Enable = False,
      SelfSigned_ValidDays = 0, SelfSigned_Organization = [], SelfSigned_Cert = [],
      SelfSigned_PrivKey = []\<rparr>"

record flags =
  ShowVersion :: bool
  ConfigFile :: string

text \<open>
  What config.go takes from outside the two source files: the standard library
  (\<^verbatim>\<open>ioutil.ReadFile\<close>, \<^verbatim>\<open>regexp.Compile\<close>), the YAML decoder, which fills the
  configuration it is given, the ACME library's directory URL, and the declarations of
  this program that live in other files (the two whitelist constructors, the two cache
  constructors, the staging URL and the default organization). A constructor returning
  \<^verbatim>\<open>(autocert.Cache, error)\<close> returns a pair, since \<^verbatim>\<open>initConfig\<close> reads the first
  component whatever the second is.
\<close>

record env =
  ReadFile :: "string \<Rightarrow> error + string"
  UnmarshalStrict :: "string \<Rightarrow> config \<Rightarrow> error + config"
  Compile :: "string \<Rightarrow> error + regexp"
  HostWhitelist :: "string list \<Rightarrow> hostPolicy"
  RegexpWhitelist :: "regexp list \<Rightarrow> hostPolicy"
  NewDirCache :: "string \<Rightarrow> autocert_Cache option \<times> error option"
  NewRedisCache :: "string \<Rightarrow> autocert_Cache option \<times> error option"
  stagingDirectoryURL :: string
  LetsEncryptURL :: string
  defaultSelfSignedOrganization :: "string list"

text \<open>\<^verbatim>\<open>log.Fatalf\<close> ends the process: the calls of config.go, with their arguments.\<close>

datatype fatal =
    FailedReadConfiguration error
  | FailedCompileLetsEncryptPattern string error
  | FailedSetupRedisStorage error
  | FailedCompileManagedPattern string error

subsection \<open>setupDefaultOptions\<close>

text \<open>
  The method reads and writes the global \<^verbatim>\<open>Cfg\<close>, not its receiver; its only caller
  invokes it on \<^verbatim>\<open>Cfg\<close>. The assignments are kept in the source's order.
\<close>

definition setupDefaultOptions :: "env \<Rightarrow> config \<Rightarrow> config" where
  "setupDefaultOptions e c0 =
    (let c1 = (if Listen c0 = [] then c0\<lparr>Listen := ''127.0.0.1:8999''\<rparr> else c0);
         c2 = (if PIDFile c1 = [] then c1\<lparr>Listen := ''ssl-cert-server.pid''\<rparr> else c1);
         c3 = (if Storage_Type c2 = [] then c2\<lparr>Storage_Type := ''dir_cache''\<rparr> else c2);
         c4 = (if Storage_DirCache c3 = []
               then c3\<lparr>Storage_DirCache := ''./secret-dir''\<rparr> else c3);
         c5 = (if Storage_Redis_Addr c4 = []
               then c4\<lparr>Storage_Redis_Addr := ''127.0.0.1:6379''\<rparr> else c4);
         c6 = (if LetsEncrypt_RenewBefore c5 \<le> 0
               then c5\<lparr>LetsEncrypt_RenewBefore := 30\<rparr> else c5);
         c7 = (if LetsEncrypt_Staging c6
               then c6\<lparr>LetsEncrypt_DirectoryURL := stagingDirectoryURL e\<rparr>
               else c6\<lparr>LetsEncrypt_DirectoryURL := LetsEncryptURL e\<rparr>);
         c8 = (if SelfSigned_ValidDays c7 \<le> 0
               then c7\<lparr>SelfSigned_ValidDays := 365\<rparr> else c7);
         c9 = (if length (SelfSigned_Organization c8) = 0
               then c8\<lparr>SelfSigned_Organization := defaultSelfSignedOrganization e\<rparr>
               else c8);
         c10 = (if SelfSigned_Cert c9 = []
                then c9\<lparr>SelfSigned_Cert := ''self_signed.cert''\<rparr> else c9);
         c11 = (if SelfSigned_PrivKey c10 = []
                then c10\<lparr>SelfSigned_PrivKey := ''self_signed.key''\<rparr> else c10)
     in c11)"

subsection \<open>buildHostPolicy\<close>

text \<open>The loop over \<^verbatim>\<open>REPatterns\<close>: the first pattern that does not compile is fatal.\<close>

fun compilePatterns :: "(string \<Rightarrow> error + regexp) \<Rightarrow> string list \<Rightarrow> fatal + regexp list" where
  "compilePatterns compile [] = Inr []"
| "compilePatterns compile (p # ps) =
     (case compile p of
        Inl err \<Rightarrow> Inl (FailedCompileLetsEncryptPattern p err)
      | Inr re \<Rightarrow>
          (case compilePatterns compile ps of
             Inl f \<Rightarrow> Inl f
           | Inr res \<Rightarrow> Inr (re # res)))"

text \<open>
  The closure of lines 146 to 158. The named result \<^verbatim>\<open>err\<close> starts as nil; \<open>Inl\<close> of
  the inner sum is a \<^verbatim>\<open>return\<close> from inside the first \<^verbatim>\<open>if\<close>. In the second
  \<^verbatim>\<open>if\<close> the source returns nil when \<^verbatim>\<open>rePolicy\<close> gave an error, and \<^verbatim>\<open>err\<close>
  otherwise.
\<close>

definition composedPolicy :: "hostPolicy option \<Rightarrow> hostPolicy option \<Rightarrow> hostPolicy" where
  "composedPolicy listPolicy rePolicy host =
    (case (case listPolicy of
             None \<Rightarrow> Inr None
           | Some lp \<Rightarrow> (let err = lp host in if err = None then Inl None else Inr err)) of
       Inl r \<Rightarrow> r
     | Inr err \<Rightarrow>
         (case rePolicy of
            None \<Rightarrow> err
          | Some rp \<Rightarrow> (let err' = rp host in if err' \<noteq> None then None else err')))"

definition allowAny :: hostPolicy where
  "allowAny host = None"

definition buildHostPolicy :: "env \<Rightarrow> config \<Rightarrow> fatal + config" where
  "buildHostPolicy e p =
    (let listPolicy =
           (if length (LetsEncrypt_Domains p) > 0
            then Some (HostWhitelist e (LetsEncrypt_Domains p)) else None)
     in case (if length (LetsEncrypt_REPatterns p) > 0
              then (case compilePatterns (Compile e) (LetsEncrypt_REPatterns p) of
                      Inl f \<Rightarrow> Inl f
                    | Inr patterns \<Rightarrow> Inr (Some (RegexpWhitelist e patterns)))
              else Inr None) of
          Inl f \<Rightarrow> Inl f
        | Inr rePolicy \<Rightarrow>
            (case (listPolicy, rePolicy) of
               (None, None) \<Rightarrow> Inr (p\<lparr>LetsEncrypt_HostPolicy := Some allowAny\<rparr>)
             | _ \<Rightarrow> Inr (p\<lparr>LetsEncrypt_HostPolicy :=
                              Some (composedPolicy listPolicy rePolicy)\<rparr>)))"

text \<open>
  \<open>authorize e p host\<close> is the verdict of the policy that \<open>buildHostPolicy\<close> installs:
  \<open>Inl\<close> when building it was fatal, else \<open>Inr\<close> of the policy's result, nil for allow.
\<close>

definition authorize :: "env \<Rightarrow> config \<Rightarrow> string \<Rightarrow> fatal + error option" where
  "authorize e p host =
    (case buildHostPolicy e p of
       Inl f \<Rightarrow> Inl f
     | Inr p' \<Rightarrow>
         (case LetsEncrypt_HostPolicy p' of
            None \<Rightarrow> Inr None
          | Some pol \<Rightarrow> Inr (pol host)))"

subsection \<open>initConfig\<close>

text \<open>The \<^verbatim>\<open>switch\<close> on the storage type, lines 189 to 197: it has no default case.\<close>

definition initStorage :: "env \<Rightarrow> config \<Rightarrow> fatal + config" where
  "initStorage e c =
    (if Storage_Type c = ''dir_cache''
     then Inr (c\<lparr>Storage_Cache := fst (NewDirCache e (Storage_DirCache c))\<rparr>)
     else if Storage_Type c = ''redis''
     then (case NewRedisCache e (Storage_Redis_Addr c) of
             (ch, Some err) \<Rightarrow> Inl (FailedSetupRedisStorage err)
           | (ch, None) \<Rightarrow> Inr (c\<lparr>Storage_Cache := ch\<rparr>))
     else Inr c)"

fun compileManaged :: "(string \<Rightarrow> error + regexp) \<Rightarrow> managed_item list \<Rightarrow> fatal + managed_item list" where
  "compileManaged compile [] = Inr []"
| "compileManaged compile (m # ms) =
     (case compile (Pattern m) of
        Inl err \<Rightarrow> Inl (FailedCompileManagedPattern (Pattern m) err)
      | Inr re \<Rightarrow>
          (case compileManaged compile ms of
             Inl f \<Rightarrow> Inl f
           | Inr ms' \<Rightarrow> Inr (m\<lparr>Regex := Some re\<rparr> # ms')))"

definition initConfig :: "env \<Rightarrow> flags \<Rightarrow> config \<Rightarrow> fatal + config" where
  "initConfig e fl cfg =
    (case ReadFile e (ConfigFile fl) of
       Inl err \<Rightarrow> Inl (FailedReadConfiguration err)
     | Inr confbuf \<Rightarrow>
    (case UnmarshalStrict e confbuf cfg of
       Inl err \<Rightarrow> Inl (FailedReadConfiguration err)
     | Inr c1 \<Rightarrow>
    (case buildHostPolicy e (setupDefaultOptions e c1) of
       Inl f \<Rightarrow> Inl f
     | Inr c2 \<Rightarrow>
    (case initStorage e c2 of
       Inl f \<Rightarrow> Inl f
     | Inr c3 \<Rightarrow>
    (case compileManaged (Compile e) (Managed c3) of
       Inl f \<Rightarrow> Inl f
     | Inr ms \<Rightarrow> Inr (c3\<lparr>Managed := ms\<rparr>))))))"

section \<open>The managed certificate cache (server/managed.go)\<close>

text \<open>
  A \<^verbatim>\<open>*tls.Certificate\<close> is a pointer: the model keeps the address, so that two results
  are equal exactly when they are the same instance.
\<close>

datatype tls_Certificate = Certificate nat

text \<open>\<^verbatim>\<open>const reloadInterval = 300\<close>, used at type \<^verbatim>\<open>int64\<close>.\<close>

definition reloadInterval :: "64 word" where
  "reloadInterval = 300"

text \<open>
  The struct \<^verbatim>\<open>managedCert\<close>: the embedded \<^verbatim>\<open>sync.Mutex\<close> is the flag \<open>locked\<close>, a
  nil \<^verbatim>\<open>cert\<close> is \<open>None\<close>, and \<^verbatim>\<open>loadAt\<close> is a signed 64-bit integer.
\<close>

record managedCert =
  locked :: bool
  cert :: "tls_Certificate option"
  loadAt :: "64 word"

definition managedCert_zero :: managedCert where
  "managedCert_zero = \<lparr>locked = False, cert = None, loadAt = 0\<rparr>"

text \<open>
  The closure that \<^verbatim>\<open>Get\<close> hands to \<^verbatim>\<open>Watch\<close> is
  \<^verbatim>\<open>func() { return p.getManagedCertificate(certKey) }\<close>: it is represented by the key it
  captures. A watch is one call of \<^verbatim>\<open>p.ocspMgr.Watch\<close>, with both arguments.
\<close>

datatype refresh = GetManagedCertificateOf string

record watch =
  watch_key :: string
  watch_refresh :: refresh

text \<open>Which function called \<^verbatim>\<open>LoadCertificateFromStore\<close>, for which key, and whether it succeeded.\<close>

datatype caller = ColdLoad | BackgroundReload

record stor_call =
  call_from :: caller
  call_key :: string
  call_ok :: bool

text \<open>
  The state that the goroutines share. \<open>cache\<close> is the \<^verbatim>\<open>sync.Map\<close> of the manager: it
  maps a key to a pointer to a \<^verbatim>\<open>managedCert\<close>, so the structs live in an explicit \<open>heap\<close>
  indexed by address, with \<open>next_addr\<close> the next address that \<^verbatim>\<open>&managedCert{}\<close>
  allocates. The collaborators are seen through the calls made to them: \<open>stor_calls\<close>
  for \<^verbatim>\<open>p.stor\<close>, \<open>watches\<close> for \<^verbatim>\<open>p.ocspMgr\<close>, \<open>warnings\<close> for \<^verbatim>\<open>p.log\<close>, each in
  call order.
\<close>

record state =
  cache :: "string \<rightharpoonup> nat"
  heap :: "nat \<Rightarrow> managedCert"
  next_addr :: nat
  stor_calls :: "stor_call list"
  watches :: "watch list"
  warnings :: "string list"

text \<open>\<^verbatim>\<open>NewManagedCertManager\<close>: an empty map, and nothing called yet.\<close>

definition NewManagedCertManager :: state where
  "NewManagedCertManager =
     \<lparr>cache = Map.empty, heap = (\<lambda>a. managedCert_zero), next_addr = 0,
      stor_calls = [], watches = [], warnings = []\<rparr>"

text \<open>\<^verbatim>\<open>LoadCertificateFromStore\<close> belongs to the storage manager: a parameter.\<close>

type_synonym stor = "string \<Rightarrow> error + tls_Certificate"

definition OCSPKeyName :: "string \<Rightarrow> string" where
  "OCSPKeyName certKey = ''managed|'' @ certKey"

subsection \<open>Control points\<close>

text \<open>
  A goroutine is at a line of the source with its local variables. \<open>frame\<close> is an
  activation of \<^verbatim>\<open>getManagedCertificate\<close>: the constructor names the line about to run,
  the arguments are \<^verbatim>\<open>certKey\<close>, then \<^verbatim>\<open>mngCert\<close> and \<^verbatim>\<open>tlscert\<close> once they are bound.
  \<open>Unlock_Ret\<close> is the deferred \<^verbatim>\<open>mngCert.Unlock()\<close> with the value being returned, and
  \<open>Ret\<close> is the activation after its return.
\<close>

datatype frame =
    L54 string
  | L57 string nat
  | L59 string nat tls_Certificate
  | L60 string nat tls_Certificate
  | L61 string nat tls_Certificate
  | L68 string
  | L70 string nat
  | L73 string nat
  | L76 string nat
  | L80 string nat tls_Certificate
  | L81 string nat tls_Certificate
  | Unlock_Ret nat "error + tls_Certificate"
  | Ret "error + tls_Certificate"

text \<open>
  A goroutine runs \<^verbatim>\<open>Get\<close> (inside its call of \<^verbatim>\<open>getManagedCertificate\<close>, then at the
  call of \<^verbatim>\<open>Watch\<close> on line 46, then returned), or a refresh callback of the OCSP
  manager (an activation of \<^verbatim>\<open>getManagedCertificate\<close> alone), or
  \<^verbatim>\<open>reloadManagedCertificate(mngCert, certKey)\<close> at one of its lines.
\<close>

datatype goroutine =
    Get_L40 string frame
  | Get_L46 string tls_Certificate
  | Get_Ret "error + tls_Certificate"
  | Callback frame
  | Reload_L86 nat string
  | Reload_L88 string error
  | Reload_L91 nat tls_Certificate
  | Reload_L93 nat tls_Certificate
  | Reload_L94 nat
  | Reload_Unlock nat
  | Reload_Ret

subsection \<open>One step of getManagedCertificate\<close>

text \<open>
  Each step is one access to the shared state. The result is the next control point, the
  new state and the goroutines launched by a \<^verbatim>\<open>go\<close> statement; \<open>None\<close> means that no
  step is possible: the activation has returned, or it waits at \<^verbatim>\<open>Lock()\<close> for a mutex
  that is held. \<open>now\<close> is what \<^verbatim>\<open>time.Now().Unix()\<close> returns at this step.
\<close>

fun step_frame :: "stor \<Rightarrow> 64 word \<Rightarrow> frame \<Rightarrow> state \<Rightarrow> (frame \<times> state \<times> goroutine list) option" where
  "step_frame st now (L54 certKey) p =
     (case cache p certKey of
        None \<Rightarrow> Some (L68 certKey, p, [])
      | Some mngCert \<Rightarrow> Some (L57 certKey mngCert, p, []))"
| "step_frame st now (L57 certKey mngCert) p =
     (case cert (heap p mngCert) of
        None \<Rightarrow> Some (L68 certKey, p, [])
      | Some tlscert \<Rightarrow> Some (L59 certKey mngCert tlscert, p, []))"
| "step_frame st now (L59 certKey mngCert tlscert) p =
     (if 0 <s loadAt (heap p mngCert)
      then Some (L60 certKey mngCert tlscert, p, [])
      else Some (Ret (Inr tlscert), p, []))"
| "step_frame st now (L60 certKey mngCert tlscert) p =
     (if reloadInterval <s now - loadAt (heap p mngCert)
      then Some (L61 certKey mngCert tlscert, p, [])
      else Some (Ret (Inr tlscert), p, []))"
| "step_frame st now (L61 certKey mngCert tlscert) p =
     Some (Ret (Inr tlscert), p, [Reload_L86 mngCert certKey])"
| "step_frame st now (L68 certKey) p =
     (let fresh = next_addr p;
          p' = p\<lparr>heap := (heap p)(fresh := managedCert_zero), next_addr := Suc fresh\<rparr>
      in case cache p certKey of
           Some mngCert \<Rightarrow> Some (L70 certKey mngCert, p', [])
         | None \<Rightarrow> Some (L70 certKey fresh, p'\<lparr>cache := (cache p)(certKey \<mapsto> fresh)\<rparr>, []))"
| "step_frame st now (L70 certKey mngCert) p =
     (if locked (heap p mngCert) then None
      else Some (L73 certKey mngCert,
                 p\<lparr>heap := (heap p)(mngCert := (heap p mngCert)\<lparr>locked := True\<rparr>)\<rparr>, []))"
| "step_frame st now (L73 certKey mngCert) p =
     (case cert (heap p mngCert) of
        Some tlscert \<Rightarrow> Some (Unlock_Ret mngCert (Inr tlscert), p, [])
      | None \<Rightarrow> Some (L76 certKey mngCert, p, []))"
| "step_frame st now (L76 certKey mngCert) p =
     (case st certKey of
        Inl err \<Rightarrow>
          Some (Unlock_Ret mngCert (Inl (''managed: '' @ err)),
                p\<lparr>stor_calls := stor_calls p @
                     [\<lparr>call_from = ColdLoad, call_key = certKey, call_ok = False\<rparr>]\<rparr>, [])
      | Inr tlscert \<Rightarrow>
          Some (L80 certKey mngCert tlscert,
                p\<lparr>stor_calls := stor_calls p @
                     [\<lparr>call_from = ColdLoad, call_key = certKey, call_ok = True\<rparr>]\<rparr>, []))"
| "step_frame st now (L80 certKey mngCert tlscert) p =
     Some (L81 certKey mngCert tlscert,
           p\<lparr>heap := (heap p)(mngCert := (heap p mngCert)\<lparr>cert := Some tlscert\<rparr>)\<rparr>, [])"
| "step_frame st now (L81 certKey mngCert tlscert) p =
     Some (Unlock_Ret mngCert (Inr tlscert),
           p\<lparr>heap := (heap p)(mngCert := (heap p mngCert)\<lparr>loadAt := now\<rparr>)\<rparr>, [])"
| "step_frame st now (Unlock_Ret mngCert r) p =
     Some (Ret r, p\<lparr>heap := (heap p)(mngCert := (heap p mngCert)\<lparr>locked := False\<rparr>)\<rparr>, [])"
| "step_frame st now (Ret r) p = None"

subsection \<open>One step of a goroutine\<close>

definition warning :: "string \<Rightarrow> error \<Rightarrow> string" where
  "warning certKey err = ''failed reload certificate: certKey= '' @ certKey @ '' err= '' @ err"

fun step :: "stor \<Rightarrow> 64 word \<Rightarrow> goroutine \<Rightarrow> state \<Rightarrow> (goroutine \<times> state \<times> goroutine list) option" where
  "step st now (Get_L40 certKey (Ret (Inl err))) p = Some (Get_Ret (Inl err), p, [])"
| "step st now (Get_L40 certKey (Ret (Inr tlscert))) p = Some (Get_L46 certKey tlscert, p, [])"
| "step st now (Get_L40 certKey f) p =
     (case step_frame st now f p of
        None \<Rightarrow> None
      | Some (f', p', gs) \<Rightarrow> Some (Get_L40 certKey f', p', gs))"
| "step st now (Get_L46 certKey tlscert) p =
     Some (Get_Ret (Inr tlscert),
           p\<lparr>watches := watches p @
                [\<lparr>watch_key = OCSPKeyName certKey,
                  watch_refresh = GetManagedCertificateOf certKey\<rparr>]\<rparr>, [])"
| "step st now (Get_Ret r) p = None"
| "step st now (Callback f) p =
     (case step_frame st now f p of
        None \<Rightarrow> None
      | Some (f', p', gs) \<Rightarrow> Some (Callback f', p', gs))"
| "step st now (Reload_L86 mngCert certKey) p =
     (case st certKey of
        Inl err \<Rightarrow>
          Some (Reload_L88 certKey err,
                p\<lparr>stor_calls := stor_calls p @
                     [\<lparr>call_from = BackgroundReload, call_key = certKey, call_ok = False\<rparr>]\<rparr>, [])
      | Inr tlscert \<Rightarrow>
          Some (Reload_L91 mngCert tlscert,
                p\<lparr>stor_calls := stor_calls p @
                     [\<lparr>call_from = BackgroundReload, call_key = certKey, call_ok = True\<rparr>]\<rparr>, []))"
| "step st now (Reload_L88 certKey err) p =
     Some (Reload_Ret, p\<lparr>warnings := warnings p @ [warning certKey err]\<rparr>, [])"
| "step st now (Reload_L91 mngCert tlscert) p =
     (if locked (heap p mngCert) then None
      else Some (Reload_L93 mngCert tlscert,
                 p\<lparr>heap := (heap p)(mngCert := (heap p mngCert)\<lparr>locked := True\<rparr>)\<rparr>, []))"
| "step st now (Reload_L93 mngCert tlscert) p =
     Some (Reload_L94 mngCert,
           p\<lparr>heap := (heap p)(mngCert := (heap p mngCert)\<lparr>cert := Some tlscert\<rparr>)\<rparr>, [])"
| "step st now (Reload_L94 mngCert) p =
     Some (Reload_Unlock mngCert,
           p\<lparr>heap := (heap p)(mngCert := (heap p mngCert)\<lparr>loadAt := now\<rparr>)\<rparr>, [])"
| "step st now (Reload_Unlock mngCert) p =
     Some (Reload_Ret,
           p\<lparr>heap := (heap p)(mngCert := (heap p mngCert)\<lparr>locked := False\<rparr>)\<rparr>, [])"
| "step st now Reload_Ret p = None"

subsection \<open>A call that runs undisturbed\<close>

text \<open>
  The source has no loop: every step moves a goroutine to a later line, and \<open>rank\<close>
  counts how many lines can still follow.
\<close>

fun rank_frame :: "frame \<Rightarrow> nat" where
  "rank_frame (L54 k) = 12"
| "rank_frame (L57 k a) = 11"
| "rank_frame (L59 k a c) = 10"
| "rank_frame (L60 k a c) = 9"
| "rank_frame (L61 k a c) = 8"
| "rank_frame (L68 k) = 7"
| "rank_frame (L70 k a) = 6"
| "rank_frame (L73 k a) = 5"
| "rank_frame (L76 k a) = 4"
| "rank_frame (L80 k a c) = 3"
| "rank_frame (L81 k a c) = 2"
| "rank_frame (Unlock_Ret a r) = 1"
| "rank_frame (Ret r) = 0"

fun rank :: "goroutine \<Rightarrow> nat" where
  "rank (Get_L40 k f) = rank_frame f + 2"
| "rank (Get_L46 k c) = 1"
| "rank (Get_Ret r) = 0"
| "rank (Callback f) = rank_frame f"
| "rank (Reload_L86 a k) = 6"
| "rank (Reload_L88 k e) = 1"
| "rank (Reload_L91 a c) = 4"
| "rank (Reload_L93 a c) = 3"
| "rank (Reload_L94 a) = 2"
| "rank (Reload_Unlock a) = 1"
| "rank Reload_Ret = 0"

lemma step_frame_rank:
  "step_frame st now f p = Some (f', p', gs) \<Longrightarrow> rank_frame f' < rank_frame f"
  by (cases f) (auto simp: Let_def split: option.splits if_splits sum.splits)

lemma step_rank:
  "step st now g p = Some (g', p', gs) \<Longrightarrow> rank g' < rank g"
proof (induction st now g p rule: step.induct)
qed (auto simp del: step_frame.simps split: option.splits if_splits sum.splits
       dest: step_frame_rank)

text \<open>
  \<open>run\<close> lets one goroutine take steps until it can take no more, with no other
  goroutine in between: the clock reading \<open>now\<close> and the storage manager \<open>st\<close> are those
  of the call. It returns the control point reached (a return, or a \<^verbatim>\<open>Lock()\<close> that
  waits), the state and the goroutines launched on the way.
\<close>

function run :: "stor \<Rightarrow> 64 word \<Rightarrow> goroutine \<Rightarrow> state \<Rightarrow> goroutine list \<Rightarrow> goroutine \<times> state \<times> goroutine list" where
  "run st now g p gs =
     (case step st now g p of
        None \<Rightarrow> (g, p, gs)
      | Some (g', p', new) \<Rightarrow> run st now g' p' (gs @ new))"
  by pat_completeness auto
termination
  by (relation "measure (\<lambda>(st, now, g, p, gs). rank g)") (auto dest: step_rank)

declare run.simps [simp del]

text \<open>
  The three functions of the source, called on a state \<open>p\<close> and run undisturbed. The
  result is \<open>None\<close> when the call does not return because it waits for a mutex that is
  held; otherwise it is what the function returns, the state it leaves and the goroutines
  it launched.
\<close>

definition getManagedCertificate :: "stor \<Rightarrow> 64 word \<Rightarrow> string \<Rightarrow> state \<Rightarrow> ((error + tls_Certificate) \<times> state \<times> goroutine list) option" where
  "getManagedCertificate st now certKey p =
     (case run st now (Callback (L54 certKey)) p [] of
        (Callback (Ret r), p', gs) \<Rightarrow> Some (r, p', gs)
      | _ \<Rightarrow> None)"

definition Get :: "stor \<Rightarrow> 64 word \<Rightarrow> string \<Rightarrow> state \<Rightarrow> ((error + tls_Certificate) \<times> state \<times> goroutine list) option" where
  "Get st now certKey p =
     (case run st now (Get_L40 certKey (L54 certKey)) p [] of
        (Get_Ret r, p', gs) \<Rightarrow> Some (r, p', gs)
      | _ \<Rightarrow> None)"

definition reloadManagedCertificate :: "stor \<Rightarrow> 64 word \<Rightarrow> nat \<Rightarrow> string \<Rightarrow> state \<Rightarrow> state option" where
  "reloadManagedCertificate st now mngCert certKey p =
     (case run st now (Reload_L86 mngCert certKey) p [] of
        (Reload_Ret, p', gs) \<Rightarrow> Some p'
      | _ \<Rightarrow> None)"

text \<open>Running a registered refresh callback is a call of \<^verbatim>\<open>getManagedCertificate\<close>.\<close>

fun run_refresh :: "stor \<Rightarrow> 64 word \<Rightarrow> refresh \<Rightarrow> state \<Rightarrow> ((error + tls_Certificate) \<times> state \<times> goroutine list) option" where
  "run_refresh st now (GetManagedCertificateOf certKey) p = getManagedCertificate st now certKey p"

text \<open>Calls of \<^verbatim>\<open>Get\<close> one after the other, each with its storage manager and clock reading.\<close>

fun Get_repeatedly :: "(stor \<times> 64 word) list \<Rightarrow> string \<Rightarrow> state \<Rightarrow> ((error + tls_Certificate) list \<times> state \<times> goroutine list) option" where
  "Get_repeatedly [] certKey p = Some ([], p, [])"
| "Get_repeatedly ((st, now) # calls) certKey p =
     (case Get st now certKey p of
        None \<Rightarrow> None
      | Some (r, p', gs) \<Rightarrow>
          (case Get_repeatedly calls certKey p' of
             None \<Rightarrow> None
           | Some (rs, p'', gs') \<Rightarrow> Some (r # rs, p'', gs @ gs')))"

text \<open>The struct that the map holds for a key, if any.\<close>

definition entry :: "state \<Rightarrow> string \<Rightarrow> managedCert option" where
  "entry p certKey = map_option (heap p) (cache p certKey)"

text \<open>The watch that \<^verbatim>\<open>Get\<close> registers for a key on line 46.\<close>

definition the_watch :: "string \<Rightarrow> watch" where
  "the_watch certKey =
     \<lparr>watch_key = OCSPKeyName certKey, watch_refresh = GetManagedCertificateOf certKey\<rparr>"

subsection \<open>Goroutines running concurrently\<close>

text \<open>
  The goroutines of the process, over the shared state. The scheduler picks the goroutine
  that takes the next step; the choice comes with what the storage manager answers and
  what the clock reads at that step. A goroutine that cannot step (it has returned, or its
  mutex is held) leaves the system as it is; a \<^verbatim>\<open>go\<close> statement adds a goroutine.
\<close>

record system =
  shared :: state
  goroutines :: "goroutine list"

type_synonym choice = "nat \<times> stor \<times> 64 word"

fun sys_step :: "choice \<Rightarrow> system \<Rightarrow> system" where
  "sys_step (i, st, now) s =
     (if i < length (goroutines s)
      then (case step st now (goroutines s ! i) (shared s) of
              None \<Rightarrow> s
            | Some (g', p', new) \<Rightarrow>
                \<lparr>shared = p', goroutines = (goroutines s)[i := g'] @ new\<rparr>)
      else s)"

definition sys_run :: "choice list \<Rightarrow> system \<Rightarrow> system" where
  "sys_run sched s = fold sys_step sched s"

text \<open>A goroutine that is about to run the first line of \<^verbatim>\<open>Get\<close> or of a refresh callback.\<close>

fun entry_point :: "goroutine \<Rightarrow> bool" where
  "entry_point (Get_L40 certKey (L54 certKey')) = (certKey = certKey')"
| "entry_point (Callback (L54 certKey)) = True"
| "entry_point g = False"

text \<open>
  The calls of \<^verbatim>\<open>LoadCertificateFromStore\<close> made for a key by the cold path (line 76), in
  call order.
\<close>

definition cold_calls :: "string \<Rightarrow> state \<Rightarrow> stor_call list" where
  "cold_calls certKey p =
     filter (\<lambda>c. call_from c = ColdLoad \<and> call_key c = certKey) (stor_calls p)"

subsection \<open>What a goroutine holds and relies on\<close>

text \<open>The mutex that a goroutine holds: it is between a \<^verbatim>\<open>Lock()\<close> and the deferred unlock.\<close>

fun holds_frame :: "frame \<Rightarrow> nat option" where
  "holds_frame (L73 k a) = Some a"
| "holds_frame (L76 k a) = Some a"
| "holds_frame (L80 k a c) = Some a"
| "holds_frame (L81 k a c) = Some a"
| "holds_frame (Unlock_Ret a r) = Some a"
| "holds_frame f = None"

fun holds :: "goroutine \<Rightarrow> nat option" where
  "holds (Get_L40 k f) = holds_frame f"
| "holds (Callback f) = holds_frame f"
| "holds (Reload_L93 a c) = Some a"
| "holds (Reload_L94 a) = Some a"
| "holds (Reload_Unlock a) = Some a"
| "holds g = None"

text \<open>
  The key whose certificate a goroutine has loaded on line 76 and not yet stored: it is
  at line 80.
\<close>

fun stored_frame :: "frame \<Rightarrow> string option" where
  "stored_frame (L80 k a c) = Some k"
| "stored_frame f = None"

fun stored :: "goroutine \<Rightarrow> string option" where
  "stored (Get_L40 k f) = stored_frame f"
| "stored (Callback f) = stored_frame f"
| "stored g = None"

text \<open>The last cold load of the key succeeded.\<close>

definition cold_loaded :: "string \<Rightarrow> state \<Rightarrow> bool" where
  "cold_loaded certKey p =
     (case rev (cold_calls certKey p) of [] \<Rightarrow> False | c # cs \<Rightarrow> call_ok c)"

text \<open>The struct at an address has a snapshot.\<close>

definition populated :: "state \<Rightarrow> nat \<Rightarrow> bool" where
  "populated p a \<longleftrightarrow> cert (heap p a) \<noteq> None"

text \<open>
  What a goroutine at a given line knows about the shared state: its \<^verbatim>\<open>mngCert\<close> is the
  entry of its key (or at least an allocated struct), the snapshot it read as non-nil is
  still non-nil, and the snapshot it read as nil under the mutex is still nil.
\<close>

fun good_frame :: "state \<Rightarrow> frame \<Rightarrow> bool" where
  "good_frame p (L57 k a) = (cache p k = Some a)"
| "good_frame p (L59 k a c) = (cache p k = Some a \<and> populated p a)"
| "good_frame p (L60 k a c) = (cache p k = Some a \<and> populated p a)"
| "good_frame p (L61 k a c) = (cache p k = Some a \<and> populated p a)"
| "good_frame p (L70 k a) = (cache p k = Some a)"
| "good_frame p (L73 k a) = (cache p k = Some a)"
| "good_frame p (L76 k a) = (cache p k = Some a \<and> \<not> populated p a)"
| "good_frame p (L80 k a c) =
     (cache p k = Some a \<and> \<not> populated p a \<and> cold_loaded k p)"
| "good_frame p (L81 k a c) = (cache p k = Some a)"
| "good_frame p (Unlock_Ret a r) = (a < next_addr p)"
| "good_frame p f = True"

fun good :: "state \<Rightarrow> goroutine \<Rightarrow> bool" where
  "good p (Get_L40 k f) = good_frame p f"
| "good p (Callback f) = good_frame p f"
| "good p (Reload_L86 a k) = (cache p k = Some a \<and> populated p a)"
| "good p (Reload_L91 a c) = (a < next_addr p \<and> populated p a)"
| "good p (Reload_L93 a c) = (a < next_addr p \<and> populated p a)"
| "good p (Reload_L94 a) = (a < next_addr p)"
| "good p (Reload_Unlock a) = (a < next_addr p)"
| "good p g = True"

text \<open>Allocated structs are below \<open>next_addr\<close>, and no two keys share a struct.\<close>

definition wf_cache :: "state \<Rightarrow> bool" where
  "wf_cache p \<longleftrightarrow>
     (\<forall>k a. cache p k = Some a \<longrightarrow> a < next_addr p) \<and>
     (\<forall>k k' a. cache p k = Some a \<longrightarrow> cache p k' = Some a \<longrightarrow> k = k')"

text \<open>A mutex is locked exactly when one goroutine holds it, and no two goroutines hold it.\<close>

definition mutex :: "state \<Rightarrow> goroutine list \<Rightarrow> bool" where
  "mutex p gs \<longleftrightarrow>
     (\<forall>a. (locked (heap p a) \<longleftrightarrow> (\<exists>i<length gs. holds (gs ! i) = Some a)) \<and>
          (\<forall>i<length gs. \<forall>j<length gs.
             holds (gs ! i) = Some a \<longrightarrow> holds (gs ! j) = Some a \<longrightarrow> i = j))"

text \<open>
  The cold loads of each key: all but the last have failed; if the last succeeded, its
  certificate is in the entry or about to be stored; and a populated entry comes from a
  cold load that succeeded.
\<close>

definition log_ok :: "state \<Rightarrow> goroutine list \<Rightarrow> bool" where
  "log_ok p gs \<longleftrightarrow>
     (\<forall>k. list_all (\<lambda>c. \<not> call_ok c) (butlast (cold_calls k p)) \<and>
          (cold_loaded k p \<longrightarrow>
             (\<exists>a. cache p k = Some a \<and> populated p a) \<or>
             (\<exists>i<length gs. stored (gs ! i) = Some k)) \<and>
          (\<forall>a. cache p k = Some a \<longrightarrow> populated p a \<longrightarrow> cold_loaded k p))"

definition invar :: "system \<Rightarrow> bool" where
  "invar s \<longleftrightarrow>
     wf_cache (shared s) \<and>
     (\<forall>i<length (goroutines s). good (shared s) (goroutines s ! i)) \<and>
     mutex (shared s) (goroutines s) \<and>
     log_ok (shared s) (goroutines s)"


text \<open>The storage manager answers a load of the key with a certificate.\<close>

definition succeeds :: "stor \<Rightarrow> string \<Rightarrow> bool" where
  "succeeds st certKey = (case st certKey of Inl err \<Rightarrow> False | Inr tlscert \<Rightarrow> True)"

text \<open>The key and the \<^verbatim>\<open>mngCert\<close> that a goroutine is working with, once it has one.\<close>

fun mngCert_of_frame :: "frame \<Rightarrow> (string \<times> nat) option" where
  "mngCert_of_frame (L57 k a) = Some (k, a)"
| "mngCert_of_frame (L59 k a c) = Some (k, a)"
| "mngCert_of_frame (L60 k a c) = Some (k, a)"
| "mngCert_of_frame (L61 k a c) = Some (k, a)"
| "mngCert_of_frame (L70 k a) = Some (k, a)"
| "mngCert_of_frame (L73 k a) = Some (k, a)"
| "mngCert_of_frame (L76 k a) = Some (k, a)"
| "mngCert_of_frame (L80 k a c) = Some (k, a)"
| "mngCert_of_frame (L81 k a c) = Some (k, a)"
| "mngCert_of_frame f = None"

fun mngCert_of :: "goroutine \<Rightarrow> (string \<times> nat) option" where
  "mngCert_of (Get_L40 k f) = mngCert_of_frame f"
| "mngCert_of (Callback f) = mngCert_of_frame f"
| "mngCert_of (Reload_L86 a k) = Some (k, a)"
| "mngCert_of g = None"

text \<open>The activation of \<^verbatim>\<open>getManagedCertificate\<close> inside a goroutine, and the goroutine with that activation replaced.\<close>

fun frame_of :: "goroutine \<Rightarrow> frame option" where
  "frame_of (Get_L40 k f) = Some f"
| "frame_of (Callback f) = Some f"
| "frame_of g = None"

fun with_frame :: "goroutine \<Rightarrow> frame \<Rightarrow> goroutine" where
  "with_frame (Get_L40 k f) f' = Get_L40 k f'"
| "with_frame (Callback f) f' = Callback f'"
| "with_frame g f' = g"

section \<open>Example values\<close>

text \<open>ASCII lower case, for comparing host names without regard to letter case.\<close>

definition to_lower :: "char \<Rightarrow> char" where
  "to_lower ch =
     (case map_of (zip ''ABCDEFGHIJKLMNOPQRSTUVWXYZ'' ''abcdefghijklmnopqrstuvwxyz'') ch of
        None \<Rightarrow> ch
      | Some l \<Rightarrow> l)"

text \<open>
  Modelled from the spec: the exact-list policy built by \<^verbatim>\<open>HostWhitelist\<close>, whose source
  is in another file. It allows a host iff the host is a member of the configured domain
  set, compared without regard to letter case and with no wildcard expansion. Only nil
  against non-nil is specified for its result; the message is a placeholder.
\<close>

definition spec_HostWhitelist :: "string list \<Rightarrow> hostPolicy" where
  "spec_HostWhitelist hosts host =
     (if list_ex (\<lambda>h. map to_lower h = map to_lower host) hosts
      then None else Some ''host not in the domain list'')"

text \<open>
  Modelled from the spec: the regex-list policy built by \<^verbatim>\<open>RegexpWhitelist\<close>, whose
  source is in another file. It allows a host iff the host matches any of the compiled
  patterns; matching itself is Go's \<^verbatim>\<open>MatchString\<close>, a parameter.
\<close>

definition spec_RegexpWhitelist :: "(regexp \<Rightarrow> string \<Rightarrow> bool) \<Rightarrow> regexp list \<Rightarrow> hostPolicy" where
  "spec_RegexpWhitelist matchString patterns host =
     (if list_ex (\<lambda>re. matchString re host) patterns
      then None else Some ''host matches no pattern'')"

text \<open>
  The pattern of the spec's example, \<^verbatim>\<open>^b\.\<close> (the backslash is character 0x5C), and
  what Go's matcher does on it: a host matches iff it starts with \<^verbatim>\<open>b.\<close>. No other
  pattern is used in the examples.
\<close>

definition example_pattern :: string where
  "example_pattern = ''^b'' @ [CHR 0x5C] @ ''.''"

definition example_MatchString :: "regexp \<Rightarrow> string \<Rightarrow> bool" where
  "example_MatchString re host =
     (case re of Regexp pat \<Rightarrow> pat = example_pattern \<and> take 2 host = ''b.'')"

text \<open>
  An environment for the examples: every pattern compiles, the configuration file decodes
  to the configuration it is given, and both cache constructors fail.
\<close>

definition example_env :: env where
  "example_env =
     \<lparr>ReadFile = (\<lambda>name. Inr []),
      UnmarshalStrict = (\<lambda>buf c. Inr c),
      Compile = (\<lambda>pat. Inr (Regexp pat)),
      HostWhitelist = spec_HostWhitelist,
      RegexpWhitelist = spec_RegexpWhitelist example_MatchString,
      NewDirCache = (\<lambda>dir. (None, Some ''mkdir: permission denied'')),
      NewRedisCache = (\<lambda>addr. (None, Some ''dial tcp: connection refused'')),
      stagingDirectoryURL = ''https://acme-staging-v02.api.letsencrypt.org/directory'',
      LetsEncryptURL = ''https://acme-v02.api.letsencrypt.org/directory'',
      defaultSelfSignedOrganization = [''SSL Cert Server Self-Signed'']\<rparr>"

definition example_flags :: flags where
  "example_flags = \<lparr>ShowVersion = False, ConfigFile = ''./conf.yaml''\<rparr>"

text \<open>The configuration of the spec's host policy example.\<close>

definition example_config :: config where
  "example_config =
     Cfg_zero\<lparr>LetsEncrypt_Domains := [''a.example.com''],
              LetsEncrypt_REPatterns := [example_pattern]\<rparr>"

definition example_cert :: tls_Certificate where
  "example_cert = Certificate 1"

definition example_stor_ok :: stor where
  "example_stor_ok certKey = Inr (Certificate 2)"

definition example_stor_down :: stor where
  "example_stor_down certKey = Inl ''connection refused''"

text \<open>A manager that holds \<open>example_cert\<close> for one key, loaded at time \<open>t\<close>.\<close>

definition example_cached :: "64 word \<Rightarrow> state" where
  "example_cached t =
     NewManagedCertManager
       \<lparr>cache := [''example.com'' \<mapsto> 0],
        heap := (\<lambda>a. managedCert_zero)
                  (0 := \<lparr>locked = False, cert = Some example_cert, loadAt = t\<rparr>),
        next_addr := 1\<rparr>"

text \<open>
  Two goroutines call \<^verbatim>\<open>Get\<close> for the same key on a new manager, and both pass line 54
  before either has an entry. In the first schedule every load succeeds; goroutine 1
  waits at \<^verbatim>\<open>Lock()\<close> while goroutine 0 loads. In the second schedule the storage is down
  for goroutine 0. The third schedule stops goroutine 0 after line 80: the snapshot is
  stored, \<open>loadAt\<close> is not yet.
\<close>

definition example_system :: system where
  "example_system =
     \<lparr>shared = NewManagedCertManager,
      goroutines = [Get_L40 ''example.com'' (L54 ''example.com''),
                    Get_L40 ''example.com'' (L54 ''example.com'')]\<rparr>"

definition example_schedule :: "choice list" where
  "example_schedule =
     map (\<lambda>i. (i, example_stor_ok, 1000))
       [0, 1, 0, 1, 0, 1, 0, 0, 0, 0, 0, 1, 1, 0, 1, 0, 1, 1]"

definition example_schedule_failing :: "choice list" where
  "example_schedule_failing =
     map (\<lambda>i. (i, if i = 0 then example_stor_down else example_stor_ok, 1000))
       [0, 1, 0, 1, 0, 1, 0, 0, 0, 0, 0, 1, 1, 0, 1, 0, 1, 1, 1, 1, 1]"

definition example_schedule_race :: "choice list" where
  "example_schedule_race =
     map (\<lambda>i. (i, example_stor_ok, 1000)) [0, 0, 0, 0, 0, 0]"

section \<open>Host policy and configuration: theorems\<close>

lemma compilePatterns_length:
  "compilePatterns compile ps = Inr res \<Longrightarrow> length res = length ps"
  by (induction ps arbitrary: res) (auto split: sum.splits)

text \<open>
  With a single sub-policy that is the exact list, the composed policy is that list's
  verdict.
\<close>

lemma list_only_policy:
  "LetsEncrypt_Domains p \<noteq> [] \<Longrightarrow> LetsEncrypt_REPatterns p = [] \<Longrightarrow>
   authorize e p host = Inr (HostWhitelist e (LetsEncrypt_Domains p) host)"
  by (simp add: authorize_def buildHostPolicy_def composedPolicy_def Let_def)

text \<open>
  As soon as a pattern list is configured (and compiles), line 153 turns a denial of the
  regex policy into nil, and its nil is returned as it is: every host is allowed, whatever
  the two sub-policies say.
\<close>

lemma regex_configured_allows_every_host:
  "LetsEncrypt_REPatterns p \<noteq> [] \<Longrightarrow>
   compilePatterns (Compile e) (LetsEncrypt_REPatterns p) = Inr res \<Longrightarrow>
   authorize e p host = Inr None"
  by (auto simp: authorize_def buildHostPolicy_def composedPolicy_def Let_def
           split: option.splits)

text \<open>
  C1 (the code departs from it). The claim: when at least one sub-policy is configured, a
  host is denied unless the exact list or the regex list allows it; with exact list
  \<^verbatim>\<open>a.example.com\<close> and pattern \<^verbatim>\<open>^b\.\<close>, \<^verbatim>\<open>c.example.com\<close> is denied. On the code,
  at exactly this input, the exact list denies the host and the regex list denies it, and
  the composed policy returns nil: the host is allowed.
\<close>

theorem composed_policy_allows_unlisted_host:
  "HostWhitelist example_env (LetsEncrypt_Domains example_config) ''c.example.com'' \<noteq> None \<and>
   RegexpWhitelist example_env [Regexp example_pattern] ''c.example.com'' \<noteq> None \<and>
   compilePatterns (Compile example_env) (LetsEncrypt_REPatterns example_config) =
     Inr [Regexp example_pattern] \<and>
   authorize example_env example_config ''c.example.com'' = Inr None"
  by (simp add: authorize_def buildHostPolicy_def composedPolicy_def example_env_def
        example_config_def Cfg_zero_def spec_HostWhitelist_def spec_RegexpWhitelist_def
        example_MatchString_def example_pattern_def to_lower_def)

text \<open>The other two hosts of the spec's example are allowed, as the spec says.\<close>

lemma example_hosts_allowed:
  "authorize example_env example_config ''a.example.com'' = Inr None \<and>
   authorize example_env example_config ''b.example.com'' = Inr None"
  by (simp add: authorize_def buildHostPolicy_def composedPolicy_def example_env_def
        example_config_def Cfg_zero_def spec_HostWhitelist_def spec_RegexpWhitelist_def
        example_MatchString_def example_pattern_def to_lower_def)

text \<open>
  C8. If neither the domain list nor the pattern list is configured, the composed host
  policy allows every host: building the policy is not fatal and the policy returns nil
  for every host string.
\<close>

theorem no_policy_allows_every_host:
  assumes "LetsEncrypt_Domains p = []" and "LetsEncrypt_REPatterns p = []"
  shows "authorize e p host = Inr None"
  using assms by (simp add: authorize_def buildHostPolicy_def allowAny_def)

theorem no_policy_allows_every_host_witness:
  "LetsEncrypt_Domains Cfg_zero = [] \<and> LetsEncrypt_REPatterns Cfg_zero = [] \<and>
   authorize example_env Cfg_zero ''c.example.com'' = Inr None"
proof -
  have d: "LetsEncrypt_Domains Cfg_zero = []" and r: "LetsEncrypt_REPatterns Cfg_zero = []"
    by (simp_all add: Cfg_zero_def)
  from no_policy_allows_every_host [OF d r] d r show ?thesis by simp
qed

lemma Let_inv: "Q a \<Longrightarrow> (\<And>x. Q x \<Longrightarrow> P (f x)) \<Longrightarrow> P (Let a f)"
  by simp

text \<open>
  What \<open>setupDefaultOptions\<close> leaves in three of the fields. Each assignment of the
  source is one step of the proof, with the facts known so far as its invariant.
\<close>

lemma setupDefaultOptions_fields:
  "PIDFile (setupDefaultOptions e c) = PIDFile c \<and>
   Listen (setupDefaultOptions e c) =
     (if PIDFile c = [] then ''ssl-cert-server.pid''
      else if Listen c = [] then ''127.0.0.1:8999'' else Listen c) \<and>
   Storage_Type (setupDefaultOptions e c) =
     (if Storage_Type c = [] then ''dir_cache'' else Storage_Type c)"
proof -
  define Q1 where "Q1 = (\<lambda>x::config. PIDFile x = PIDFile c \<and> Storage_Type x = Storage_Type c \<and>
     Listen x = (if Listen c = [] then ''127.0.0.1:8999'' else Listen c))"
  define Q2 where "Q2 = (\<lambda>x::config. PIDFile x = PIDFile c \<and> Storage_Type x = Storage_Type c \<and>
     Listen x = (if PIDFile c = [] then ''ssl-cert-server.pid''
                 else if Listen c = [] then ''127.0.0.1:8999'' else Listen c))"
  define Q where "Q = (\<lambda>x::config. PIDFile x = PIDFile c \<and>
     Storage_Type x = (if Storage_Type c = [] then ''dir_cache'' else Storage_Type c) \<and>
     Listen x = (if PIDFile c = [] then ''ssl-cert-server.pid''
                 else if Listen c = [] then ''127.0.0.1:8999'' else Listen c))"
  have "Q (setupDefaultOptions e c)"
    unfolding setupDefaultOptions_def
    apply (rule Let_inv [where P = Q and Q = Q1], simp add: Q1_def)
    apply (rule Let_inv [where P = Q and Q = Q2], simp add: Q1_def Q2_def)
    apply (rule Let_inv [where P = Q and Q = Q], simp add: Q2_def Q_def)
    apply (rule Let_inv [where P = Q and Q = Q], simp add: Q_def)
    apply (rule Let_inv [where P = Q and Q = Q], simp add: Q_def)
    apply (rule Let_inv [where P = Q and Q = Q], simp add: Q_def)
    apply (rule Let_inv [where P = Q and Q = Q], simp add: Q_def)
    apply (rule Let_inv [where P = Q and Q = Q], simp add: Q_def)
    apply (rule Let_inv [where P = Q and Q = Q], simp add: Q_def)
    apply (rule Let_inv [where P = Q and Q = Q], simp add: Q_def)
    apply (rule Let_inv [where P = Q and Q = Q], simp add: Q_def)
    apply assumption
    done
  then show ?thesis by (simp add: Q_def)
qed

text \<open>
  C9. For every configuration whose \<^verbatim>\<open>PIDFile\<close> is empty, \<open>setupDefaultOptions\<close> puts the
  PID file default into \<^verbatim>\<open>Listen\<close>: afterwards \<^verbatim>\<open>PIDFile\<close> is still empty and
  \<^verbatim>\<open>Listen\<close> is \<^verbatim>\<open>ssl-cert-server.pid\<close>, whatever listen address was configured or
  defaulted.
\<close>

theorem setupDefaultOptions_pid_default_in_Listen:
  assumes "PIDFile c = []"
  shows "PIDFile (setupDefaultOptions e c) = [] \<and>
         Listen (setupDefaultOptions e c) = ''ssl-cert-server.pid''"
  using assms setupDefaultOptions_fields [of e c] by simp

theorem setupDefaultOptions_pid_default_in_Listen_witness:
  "PIDFile (Cfg_zero\<lparr>Listen := ''0.0.0.0:443''\<rparr>) = [] \<and>
   PIDFile (setupDefaultOptions example_env (Cfg_zero\<lparr>Listen := ''0.0.0.0:443''\<rparr>)) = [] \<and>
   Listen (setupDefaultOptions example_env (Cfg_zero\<lparr>Listen := ''0.0.0.0:443''\<rparr>)) =
     ''ssl-cert-server.pid''"
proof -
  have h: "PIDFile (Cfg_zero\<lparr>Listen := ''0.0.0.0:443''\<rparr>) = []"
    by (simp add: Cfg_zero_def)
  from setupDefaultOptions_pid_default_in_Listen [OF h, of example_env] h
  show ?thesis by simp
qed

text \<open>The fields that \<open>setupDefaultOptions\<close> never assigns.\<close>

lemma setupDefaultOptions_unchanged:
  "LetsEncrypt_Domains (setupDefaultOptions e c) = LetsEncrypt_Domains c \<and>
   LetsEncrypt_REPatterns (setupDefaultOptions e c) = LetsEncrypt_REPatterns c \<and>
   Managed (setupDefaultOptions e c) = Managed c \<and>
   Storage_Cache (setupDefaultOptions e c) = Storage_Cache c"
proof -
  define Q where "Q = (\<lambda>x::config. LetsEncrypt_Domains x = LetsEncrypt_Domains c \<and>
     LetsEncrypt_REPatterns x = LetsEncrypt_REPatterns c \<and> Managed x = Managed c \<and>
     Storage_Cache x = Storage_Cache c)"
  have "Q (setupDefaultOptions e c)"
    unfolding setupDefaultOptions_def
    apply (rule Let_inv [where P = Q and Q = Q], simp add: Q_def)
    apply (rule Let_inv [where P = Q and Q = Q], simp add: Q_def)
    apply (rule Let_inv [where P = Q and Q = Q], simp add: Q_def)
    apply (rule Let_inv [where P = Q and Q = Q], simp add: Q_def)
    apply (rule Let_inv [where P = Q and Q = Q], simp add: Q_def)
    apply (rule Let_inv [where P = Q and Q = Q], simp add: Q_def)
    apply (rule Let_inv [where P = Q and Q = Q], simp add: Q_def)
    apply (rule Let_inv [where P = Q and Q = Q], simp add: Q_def)
    apply (rule Let_inv [where P = Q and Q = Q], simp add: Q_def)
    apply (rule Let_inv [where P = Q and Q = Q], simp add: Q_def)
    apply (rule Let_inv [where P = Q and Q = Q], simp add: Q_def)
    apply assumption
    done
  then show ?thesis by (simp add: Q_def)
qed

lemma buildHostPolicy_only_policy:
  "buildHostPolicy e p = Inr p' \<Longrightarrow> \<exists>pol. p' = p\<lparr>LetsEncrypt_HostPolicy := Some pol\<rparr>"
  by (auto simp: buildHostPolicy_def Let_def split: sum.splits if_splits option.splits)

text \<open>
  C10. Take a start-up in which the file is read and decoded (to \<open>c1\<close>), the host policy
  is built (giving \<open>c2\<close>) and the managed patterns compile. Then the storage type after
  defaulting decides: for \<^verbatim>\<open>dir_cache\<close> the cache is the first result of
  \<^verbatim>\<open>NewDirCache\<close> whatever its error; for a type that is neither \<^verbatim>\<open>dir_cache\<close> nor
  \<^verbatim>\<open>redis\<close> the cache field is left as it was; in both cases \<open>initConfig\<close> is not fatal.
  Only for \<^verbatim>\<open>redis\<close> is an error of the constructor fatal.
\<close>

theorem initConfig_storage_setup:
  assumes "ReadFile e (ConfigFile fl) = Inr buf"
    and "UnmarshalStrict e buf cfg = Inr c1"
    and "buildHostPolicy e (setupDefaultOptions e c1) = Inr c2"
    and "compileManaged (Compile e) (Managed c2) = Inr ms"
  shows
    "Storage_Type c2 = (if Storage_Type c1 = [] then ''dir_cache'' else Storage_Type c1) \<and>
     (Storage_Type c2 = ''dir_cache'' \<longrightarrow>
        initConfig e fl cfg =
          Inr (c2\<lparr>Storage_Cache := fst (NewDirCache e (Storage_DirCache c2)),
                  Managed := ms\<rparr>)) \<and>
     (Storage_Type c2 \<noteq> ''dir_cache'' \<and> Storage_Type c2 \<noteq> ''redis'' \<longrightarrow>
        initConfig e fl cfg = Inr (c2\<lparr>Managed := ms\<rparr>)) \<and>
     (Storage_Type c2 = ''redis'' \<longrightarrow>
        initConfig e fl cfg =
          (case NewRedisCache e (Storage_Redis_Addr c2) of
             (ch, Some err) \<Rightarrow> Inl (FailedSetupRedisStorage err)
           | (ch, None) \<Rightarrow> Inr (c2\<lparr>Storage_Cache := ch, Managed := ms\<rparr>)))"
proof -
  from assms(3) obtain pol
    where c2: "c2 = (setupDefaultOptions e c1)\<lparr>LetsEncrypt_HostPolicy := Some pol\<rparr>"
    by (blast dest: buildHostPolicy_only_policy)
  have t: "Storage_Type c2 = (if Storage_Type c1 = [] then ''dir_cache'' else Storage_Type c1)"
    by (simp add: c2 setupDefaultOptions_fields)
  show ?thesis using assms
    by (auto simp: t initConfig_def initStorage_def split: prod.splits option.splits)
qed

text \<open>
  The witness: with the example environment, whose cache constructors fail, the zero
  configuration (storage type defaulted to \<^verbatim>\<open>dir_cache\<close>) and a configuration of type
  \<^verbatim>\<open>s3\<close> both start up with a nil cache, and type \<^verbatim>\<open>redis\<close> is fatal.
\<close>

theorem initConfig_storage_setup_witness:
  "(\<exists>c. initConfig example_env example_flags Cfg_zero = Inr c \<and>
        Storage_Type c = ''dir_cache'' \<and> Storage_Cache c = None) \<and>
   (\<exists>c. initConfig example_env example_flags (Cfg_zero\<lparr>Storage_Type := ''s3''\<rparr>) = Inr c \<and>
        Storage_Type c = ''s3'' \<and> Storage_Cache c = None) \<and>
   initConfig example_env example_flags (Cfg_zero\<lparr>Storage_Type := ''redis''\<rparr>) =
     Inl (FailedSetupRedisStorage ''dial tcp: connection refused'')"
proof -
  have rd: "ReadFile example_env (ConfigFile example_flags) = Inr []"
    by (simp add: example_env_def)
  have um: "UnmarshalStrict example_env [] c = Inr c" for c
    by (simp add: example_env_def)
  have bp: "buildHostPolicy example_env (setupDefaultOptions example_env c) =
              Inr ((setupDefaultOptions example_env c)\<lparr>LetsEncrypt_HostPolicy := Some allowAny\<rparr>)"
    if "LetsEncrypt_Domains c = []" and "LetsEncrypt_REPatterns c = []" for c
    using that by (simp add: buildHostPolicy_def setupDefaultOptions_unchanged)
  have cm: "compileManaged (Compile example_env)
              (Managed ((setupDefaultOptions example_env c)\<lparr>LetsEncrypt_HostPolicy := Some allowAny\<rparr>)) =
              Inr []"
    if "Managed c = []" for c
    using that by (simp add: setupDefaultOptions_unchanged)
  have z: "LetsEncrypt_Domains (Cfg_zero\<lparr>Storage_Type := ty\<rparr>) = []"
    "LetsEncrypt_REPatterns (Cfg_zero\<lparr>Storage_Type := ty\<rparr>) = []"
    "Managed (Cfg_zero\<lparr>Storage_Type := ty\<rparr>) = []"
    "Storage_Cache (Cfg_zero\<lparr>Storage_Type := ty\<rparr>) = None"
    "Storage_Type (Cfg_zero\<lparr>Storage_Type := ty\<rparr>) = ty"
    "LetsEncrypt_Domains Cfg_zero = []" "LetsEncrypt_REPatterns Cfg_zero = []"
    "Managed Cfg_zero = []" "Storage_Cache Cfg_zero = None" "Storage_Type Cfg_zero = []" for ty
    by (simp_all add: Cfg_zero_def)
  have nd: "NewDirCache example_env dir = (None, Some ''mkdir: permission denied'')"
    and nr: "NewRedisCache example_env addr = (None, Some ''dial tcp: connection refused'')"
    for dir addr
    by (simp_all add: example_env_def)
  note t1 = initConfig_storage_setup
    [OF rd um bp [OF z(6) z(7)] cm [OF z(8)]]
  note t2 = initConfig_storage_setup
    [OF rd um bp [OF z(1) z(2)] cm [OF z(3)], of "''s3''"]
  note t3 = initConfig_storage_setup
    [OF rd um bp [OF z(1) z(2)] cm [OF z(3)], of "''redis''"]
  have 1: "\<exists>c. initConfig example_env example_flags Cfg_zero = Inr c \<and>
        Storage_Type c = ''dir_cache'' \<and> Storage_Cache c = None"
    using t1 by (simp add: z nd)
  have 2: "\<exists>c. initConfig example_env example_flags (Cfg_zero\<lparr>Storage_Type := ''s3''\<rparr>) = Inr c \<and>
        Storage_Type c = ''s3'' \<and> Storage_Cache c = None"
    using t2 by (simp add: z setupDefaultOptions_unchanged)
  have 3: "initConfig example_env example_flags (Cfg_zero\<lparr>Storage_Type := ''redis''\<rparr>) =
     Inl (FailedSetupRedisStorage ''dial tcp: connection refused'')"
    using t3 by (simp add: z nr)
  from 1 2 3 show ?thesis by blast
qed

section \<open>The managed certificate cache: calls that run undisturbed\<close>

lemma run_step:
  "step st now g p = Some (g', p', new) \<Longrightarrow> run st now g p gs = run st now g' p' (gs @ new)"
  by (subst run.simps) simp

lemma run_stuck:
  "step st now g p = None \<Longrightarrow> run st now g p gs = (g, p, gs)"
  by (subst run.simps) simp

lemma step_frame_None:
  "step_frame st now f p = None \<longleftrightarrow>
     (\<exists>r. f = Ret r) \<or> (\<exists>k a. f = L70 k a \<and> locked (heap p a))"
  by (cases f) (auto simp: Let_def split: option.splits sum.splits)

lemma step_Get_L40:
  "\<forall>r. f \<noteq> Ret r \<Longrightarrow>
   step st now (Get_L40 k f) p =
     (case step_frame st now f p of
        None \<Rightarrow> None
      | Some (f', p', gs) \<Rightarrow> Some (Get_L40 k f', p', gs))"
  by (cases f) simp_all

lemma run_Callback:
  "\<exists>f'. fst (run st now (Callback f) p gs) = Callback f'"
proof (induction "rank_frame f" arbitrary: f p gs rule: less_induct)
  case less
  show ?case
  proof (cases "step_frame st now f p")
    case None
    then show ?thesis by (simp add: run_stuck)
  next
    case (Some x)
    obtain f' p' new where x: "x = (f', p', new)" by (cases x)
    have r: "rank_frame f' < rank_frame f" using Some x by (auto dest: step_frame_rank)
    have "run st now (Callback f) p gs = run st now (Callback f') p' (gs @ new)"
      using Some x by (simp add: run_step)
    then show ?thesis using less [OF r] by simp
  qed
qed

text \<open>
  \<^verbatim>\<open>Get\<close> runs like the activation of \<^verbatim>\<open>getManagedCertificate\<close> inside it, and then
  does lines 41 to 50.
\<close>

lemma run_Get_L40:
  "run st now (Get_L40 k f) p gs =
     (case run st now (Callback f) p gs of
        (Callback (Ret (Inl e)), p', gs') \<Rightarrow> (Get_Ret (Inl e), p', gs')
      | (Callback (Ret (Inr c)), p', gs') \<Rightarrow>
           (Get_Ret (Inr c), p'\<lparr>watches := watches p' @ [the_watch k]\<rparr>, gs')
      | (Callback f', p', gs') \<Rightarrow> (Get_L40 k f', p', gs')
      | (g, p', gs') \<Rightarrow> (g, p', gs'))"
proof (induction "rank_frame f" arbitrary: f p gs rule: less_induct)
  case less
  show ?case
  proof (cases "step_frame st now f p")
    case None
    then show ?thesis
      by (auto simp: step_frame_None run.simps the_watch_def split: sum.splits)
  next
    case (Some x)
    obtain f' p' new where x: "x = (f', p', new)" by (cases x)
    have r: "rank_frame f' < rank_frame f" using Some x by (auto dest: step_frame_rank)
    have nr: "\<forall>r. f \<noteq> Ret r" using Some by auto
    have 1: "run st now (Get_L40 k f) p gs = run st now (Get_L40 k f') p' (gs @ new)"
      using Some x by (simp add: run_step step_Get_L40 [OF nr])
    have 2: "run st now (Callback f) p gs = run st now (Callback f') p' (gs @ new)"
      using Some x by (simp add: run_step)
    show ?thesis unfolding 1 2 by (rule less [OF r])
  qed
qed

text \<open>Lines 39 to 51 of the source, read as one function.\<close>

lemma Get_eq:
  "Get st now certKey p =
     (case getManagedCertificate st now certKey p of
        None \<Rightarrow> None
      | Some (Inl err, p', gs) \<Rightarrow> Some (Inl err, p', gs)
      | Some (Inr tlscert, p', gs) \<Rightarrow>
          Some (Inr tlscert, p'\<lparr>watches := watches p' @ [the_watch certKey]\<rparr>, gs))"
proof -
  obtain f' p' gs' where r: "run st now (Callback (L54 certKey)) p [] = (Callback f', p', gs')"
    using run_Callback [of st now "L54 certKey" p "[]"]
    by (cases "run st now (Callback (L54 certKey)) p []") auto
  show ?thesis
    unfolding Get_def getManagedCertificate_def run_Get_L40 r
    by (auto split: frame.splits sum.splits)
qed

lemma step_frame_watches:
  "step_frame st now f p = Some (f', p', new) \<Longrightarrow> watches p' = watches p"
  by (cases f) (auto simp: Let_def split: option.splits sum.splits if_splits)

lemma run_Callback_watches:
  "run st now (Callback f) p gs = (g, p', gs') \<Longrightarrow> watches p' = watches p"
proof (induction "rank_frame f" arbitrary: f p gs rule: less_induct)
  case less
  show ?case
  proof (cases "step_frame st now f p")
    case None
    then show ?thesis using less.prems by (simp add: run_stuck)
  next
    case (Some x)
    obtain f1 p1 new where x: "x = (f1, p1, new)" by (cases x)
    have r: "rank_frame f1 < rank_frame f" using Some x by (auto dest: step_frame_rank)
    have "run st now (Callback f) p gs = run st now (Callback f1) p1 (gs @ new)"
      using Some x by (simp add: run_step)
    then have "watches p' = watches p1" using less.hyps [OF r] less.prems by simp
    then show ?thesis using Some x by (simp add: step_frame_watches)
  qed
qed

lemma getManagedCertificate_watches:
  "getManagedCertificate st now k p = Some (r, p', gs) \<Longrightarrow> watches p' = watches p"
  by (auto simp: getManagedCertificate_def split: prod.splits goroutine.splits frame.splits
      dest: run_Callback_watches)

text \<open>The hot path on a snapshot within the reload interval: nothing but the watch changes.\<close>

lemma Get_fresh:
  assumes "cache p certKey = Some a" and "cert (heap p a) = Some c"
    and "now - loadAt (heap p a) \<le>s reloadInterval"
  shows "Get st now certKey p =
           Some (Inr c, p\<lparr>watches := watches p @ [the_watch certKey]\<rparr>, [])"
  using assms
  by (simp add: Get_def run.simps signed.not_less [symmetric] the_watch_def)

text \<open>
  C2. If the cache holds an entry for the key with a non-nil snapshot \<open>c\<close>, then calls of
  \<^verbatim>\<open>Get\<close> whose clock readings are all within \<open>reloadInterval\<close> (300 seconds) of
  \<open>loadAt\<close> each return \<open>c\<close>, the same instance. The state they leave is the initial one
  but for the registered watches: no call of \<^verbatim>\<open>LoadCertificateFromStore\<close> is made, no
  goroutine is launched, and the entry is untouched. The mutex is not taken either: the
  calls return whether or not it is held.
\<close>

theorem Get_fresh_repeatedly:
  assumes "cache p certKey = Some a" and "cert (heap p a) = Some c"
    and "list_all (\<lambda>(st, now). now - loadAt (heap p a) \<le>s reloadInterval) calls"
  shows "Get_repeatedly calls certKey p =
           Some (replicate (length calls) (Inr c),
                 p\<lparr>watches := watches p @ replicate (length calls) (the_watch certKey)\<rparr>,
                 [])"
  using assms
proof (induction calls arbitrary: p)
  case Nil
  then show ?case by simp
next
  case (Cons x calls)
  obtain st now where x: "x = (st, now)" by (cases x)
  let ?p = "p\<lparr>watches := watches p @ [the_watch certKey]\<rparr>"
  have g: "Get st now certKey p = Some (Inr c, ?p, [])"
    using Cons.prems x by (simp add: Get_fresh)
  have "Get_repeatedly calls certKey ?p =
           Some (replicate (length calls) (Inr c),
                 ?p\<lparr>watches := watches ?p @ replicate (length calls) (the_watch certKey)\<rparr>,
                 [])"
    using Cons.prems by (intro Cons.IH) simp_all
  then show ?case using g x by (simp add: replicate_append_same)
qed

text \<open>
  The witness: a snapshot loaded at time 1000 and held under a locked mutex, read at times
  1100 and 1300, once with the storage down.
\<close>

theorem Get_fresh_repeatedly_witness:
  "Get_repeatedly [(example_stor_down, 1100), (example_stor_ok, 1300)] ''example.com''
     ((example_cached 1000)\<lparr>heap := (heap (example_cached 1000))
         (0 := \<lparr>locked = True, cert = Some example_cert, loadAt = 1000\<rparr>)\<rparr>) =
     Some ([Inr example_cert, Inr example_cert],
           (example_cached 1000)
             \<lparr>heap := (heap (example_cached 1000))
                (0 := \<lparr>locked = True, cert = Some example_cert, loadAt = 1000\<rparr>),
              watches := [the_watch ''example.com'', the_watch ''example.com'']\<rparr>, [])"
  using Get_fresh_repeatedly
    [of "(example_cached 1000)\<lparr>heap := (heap (example_cached 1000))
           (0 := \<lparr>locked = True, cert = Some example_cert, loadAt = 1000\<rparr>)\<rparr>"
        "''example.com''" 0 example_cert
        "[(example_stor_down, 1100), (example_stor_ok, 1300)]"]
  by (simp add: example_cached_def NewManagedCertManager_def reloadInterval_def)

text \<open>
  C3 (as amended). If the snapshot is non-nil, \<open>loadAt\<close> is positive and
  \<open>now - loadAt\<close> exceeds the reload interval, \<^verbatim>\<open>Get\<close> returns the stale snapshot and
  launches exactly one goroutine, a reload for this entry and key. The caller makes no
  storage call and takes no mutex: the state changes by the watch only.
\<close>

theorem Get_stale_launches_one_reload:
  assumes "cache p certKey = Some a" and "cert (heap p a) = Some c"
    and "0 <s loadAt (heap p a)" and "reloadInterval <s now - loadAt (heap p a)"
  shows "Get st now certKey p =
           Some (Inr c, p\<lparr>watches := watches p @ [the_watch certKey]\<rparr>,
                 [Reload_L86 a certKey])"
  using assms
  by (simp add: Get_def run.simps the_watch_def)

theorem Get_stale_launches_one_reload_witness:
  "Get example_stor_ok 1301 ''example.com'' (example_cached 1000) =
     Some (Inr example_cert,
           (example_cached 1000)\<lparr>watches := [the_watch ''example.com'']\<rparr>,
           [Reload_L86 0 ''example.com''])"
  using Get_stale_launches_one_reload
    [of "example_cached 1000" "''example.com''" 0 example_cert 1301 example_stor_ok]
  by (simp add: example_cached_def NewManagedCertManager_def reloadInterval_def word_sless_alt)

text \<open>
  The state in which goroutine 0 of the example has run lines 54 to 80 of its first load.
\<close>

lemma example_race_state:
  "sys_run example_schedule_race example_system =
     \<lparr>shared =
        \<lparr>cache = [''example.com'' \<mapsto> 0],
         heap = (\<lambda>a. managedCert_zero)
                  (0 := \<lparr>locked = True, cert = Some (Certificate 2), loadAt = 0\<rparr>),
         next_addr = 1,
         stor_calls = [\<lparr>call_from = ColdLoad, call_key = ''example.com'', call_ok = True\<rparr>],
         watches = [], warnings = []\<rparr>,
      goroutines =
        [Get_L40 ''example.com'' (L81 ''example.com'' 0 (Certificate 2)),
         Get_L40 ''example.com'' (L54 ''example.com'')]\<rparr>"
  by (simp add: example_schedule_race_def example_system_def sys_run_def
        NewManagedCertManager_def example_stor_ok_def managedCert_zero_def Let_def)

text \<open>
  C3 as stated fails: line 59 launches the reload only if \<open>loadAt\<close> is positive. A first
  load stores the snapshot on line 80 and \<open>loadAt\<close> on line 81, and the hot path reads
  both without the mutex. In the state between the two lines, reached by goroutine 0 of
  the example, a call of \<^verbatim>\<open>Get\<close> at time 1000 finds the snapshot non-nil and
  \<open>now - loadAt\<close> equal to 1000, beyond the interval; it returns the snapshot and launches
  nothing.
\<close>

theorem Get_stale_without_loadAt_launches_nothing:
  "cache (shared (sys_run example_schedule_race example_system)) ''example.com'' = Some 0 \<and>
   cert (heap (shared (sys_run example_schedule_race example_system)) 0) =
     Some (Certificate 2) \<and>
   reloadInterval <s
     1000 - loadAt (heap (shared (sys_run example_schedule_race example_system)) 0) \<and>
   Get example_stor_ok 1000 ''example.com''
       (shared (sys_run example_schedule_race example_system)) =
     Some (Inr (Certificate 2),
           (shared (sys_run example_schedule_race example_system))
             \<lparr>watches := [the_watch ''example.com'']\<rparr>, [])"
  by (simp add: example_race_state reloadInterval_def Get_def run.simps the_watch_def)

text \<open>
  C4. Let the load of the key be a first one (the map has no entry for the key, or an
  entry with a nil snapshot whose mutex is free) and let \<^verbatim>\<open>LoadCertificateFromStore\<close>
  fail with \<open>cause\<close>. Then \<^verbatim>\<open>Get\<close> returns the error \<^verbatim>\<open>managed: \<close>\<open>cause\<close>. The entry of the
  key is afterwards the one it was (a zero entry if there was none): its snapshot is nil,
  its \<open>loadAt\<close> is unchanged and its mutex is free again. No watch is registered, and the
  storage was called once.
\<close>

theorem Get_cold_load_failure:
  assumes "st certKey = Inl cause"
    and "cache p certKey = None \<or>
         (\<exists>a. cache p certKey = Some a \<and> a < next_addr p \<and>
              cert (heap p a) = None \<and> \<not> locked (heap p a))"
  shows "\<exists>p' m. Get st now certKey p = Some (Inl (''managed: '' @ cause), p', []) \<and>
           entry p' certKey = Some m \<and>
           m = (case entry p certKey of None \<Rightarrow> managedCert_zero | Some m0 \<Rightarrow> m0) \<and>
           cert m = None \<and> \<not> locked m \<and>
           watches p' = watches p \<and>
           stor_calls p' = stor_calls p @
             [\<lparr>call_from = ColdLoad, call_key = certKey, call_ok = False\<rparr>]"
  using assms
  by (auto simp add: Get_def run.simps Let_def entry_def managedCert_zero_def)

theorem Get_cold_load_failure_witness:
  "example_stor_down ''example.com'' = Inl ''connection refused'' \<and>
   cache NewManagedCertManager ''example.com'' = None \<and>
   (\<exists>p'. Get example_stor_down 1000 ''example.com'' NewManagedCertManager =
            Some (Inl ''managed: connection refused'', p', []) \<and>
          entry p' ''example.com'' = Some managedCert_zero \<and>
          watches p' = [])"
proof -
  have h1: "example_stor_down ''example.com'' = Inl ''connection refused''"
    by (simp add: example_stor_down_def)
  have h2: "cache NewManagedCertManager ''example.com'' = None"
    by (simp add: NewManagedCertManager_def)
  have h3: "entry NewManagedCertManager ''example.com'' = None"
    by (simp add: entry_def NewManagedCertManager_def)
  have h4: "watches NewManagedCertManager = []"
    by (simp add: NewManagedCertManager_def)
  from Get_cold_load_failure
    [where st = example_stor_down and certKey = "''example.com''" and now = 1000
       and p = NewManagedCertManager, OF h1 disjI1 [OF h2]] h1 h2 h3 h4
  show ?thesis by auto
qed

text \<open>
  The first load of a key that the storage has: the entry is created, the certificate is
  stored in it with the time of the load, the mutex is free again, and the watch is
  registered.
\<close>

lemma Get_cold_load_success:
  assumes "st certKey = Inr c" and "cache p certKey = None"
  shows "\<exists>p'. Get st now certKey p = Some (Inr c, p', []) \<and>
           entry p' certKey = Some \<lparr>locked = False, cert = Some c, loadAt = now\<rparr> \<and>
           watches p' = watches p @ [the_watch certKey] \<and>
           stor_calls p' = stor_calls p @
             [\<lparr>call_from = ColdLoad, call_key = certKey, call_ok = True\<rparr>]"
  using assms
  by (auto simp add: Get_def run.simps Let_def entry_def managedCert_zero_def the_watch_def)

text \<open>A cached snapshot is what \<^verbatim>\<open>Get\<close> returns, at any time and whatever the storage does.\<close>

lemma Get_cached:
  assumes "cache p certKey = Some a" and "cert (heap p a) = Some c"
  shows "\<exists>p' gs. Get st now certKey p = Some (Inr c, p', gs) \<and>
           heap p' = heap p \<and> cache p' = cache p"
  using assms by (auto simp add: Get_def run.simps)

lemma Get_repeatedly_cached:
  assumes "cache p certKey = Some a" and "cert (heap p a) = Some c"
  shows "\<exists>p' gs. Get_repeatedly calls certKey p =
           Some (replicate (length calls) (Inr c), p', gs)"
  using assms
proof (induction calls arbitrary: p)
  case Nil
  then show ?case by simp
next
  case (Cons x calls)
  obtain st now where x: "x = (st, now)" by (cases x)
  from Get_cached [OF Cons.prems, of st now] obtain p1 gs1
    where g: "Get st now certKey p = Some (Inr c, p1, gs1)"
      and h: "heap p1 = heap p" "cache p1 = cache p"
    by blast
  from Cons.IH [of p1] Cons.prems h obtain p2 gs2
    where "Get_repeatedly calls certKey p1 = Some (replicate (length calls) (Inr c), p2, gs2)"
    by auto
  then show ?case using g x by simp
qed

text \<open>
  C5. If a reload of a cached entry fails, \<open>reloadManagedCertificate\<close> returns (it has
  no result to return an error in), having logged one warning with the cause; every
  entry, with its snapshot and \<open>loadAt\<close>, and the map are as before; and all later calls of
  \<^verbatim>\<open>Get\<close> for the key, at any times and whatever the storage answers, return the
  snapshot that was cached.
\<close>

theorem reload_failure_keeps_snapshot:
  assumes "cache p certKey = Some a" and "cert (heap p a) = Some c"
    and "st certKey = Inl cause"
  shows "\<exists>p'. reloadManagedCertificate st now a certKey p = Some p' \<and>
           heap p' = heap p \<and> cache p' = cache p \<and>
           warnings p' = warnings p @ [warning certKey cause] \<and>
           (\<forall>calls. \<exists>p'' gs. Get_repeatedly calls certKey p' =
                      Some (replicate (length calls) (Inr c), p'', gs))"
proof -
  let ?p = "p\<lparr>stor_calls := stor_calls p @
                [\<lparr>call_from = BackgroundReload, call_key = certKey, call_ok = False\<rparr>],
             warnings := warnings p @ [warning certKey cause]\<rparr>"
  have r: "reloadManagedCertificate st now a certKey p = Some ?p"
    using assms(3) by (simp add: reloadManagedCertificate_def run.simps)
  have "cache ?p certKey = Some a" and "cert (heap ?p a) = Some c"
    using assms by simp_all
  then have "\<exists>p'' gs. Get_repeatedly calls certKey ?p =
               Some (replicate (length calls) (Inr c), p'', gs)" for calls
    by (rule Get_repeatedly_cached)
  then show ?thesis using r by simp
qed

theorem reload_failure_keeps_snapshot_witness:
  "cache (example_cached 1000) ''example.com'' = Some 0 \<and>
   cert (heap (example_cached 1000) 0) = Some example_cert \<and>
   example_stor_down ''example.com'' = Inl ''connection refused'' \<and>
   (\<exists>p'. reloadManagedCertificate example_stor_down 1400 0 ''example.com''
            (example_cached 1000) = Some p' \<and>
          heap p' = heap (example_cached 1000) \<and>
          warnings p' = [warning ''example.com'' ''connection refused''] \<and>
          (\<exists>p'' gs. Get_repeatedly [(example_stor_down, 1500), (example_stor_down, 1600)]
                      ''example.com'' p' =
                    Some ([Inr example_cert, Inr example_cert], p'', gs)))"
proof -
  have h1: "cache (example_cached 1000) ''example.com'' = Some 0"
    and h2: "cert (heap (example_cached 1000) 0) = Some example_cert"
    and h4: "warnings (example_cached 1000) = []"
    by (simp_all add: example_cached_def NewManagedCertManager_def)
  have h3: "example_stor_down ''example.com'' = Inl ''connection refused''"
    by (simp add: example_stor_down_def)
  from reload_failure_keeps_snapshot
    [where st = example_stor_down and certKey = "''example.com''" and now = 1400
       and p = "example_cached 1000", OF h1 h2 h3] obtain p'
    where a: "reloadManagedCertificate example_stor_down 1400 0 ''example.com''
                (example_cached 1000) = Some p'"
      and b: "heap p' = heap (example_cached 1000)"
      and c: "warnings p' = warnings (example_cached 1000) @
                [warning ''example.com'' ''connection refused'']"
      and d: "\<forall>calls. \<exists>p'' gs. Get_repeatedly calls ''example.com'' p' =
                Some (replicate (length calls) (Inr example_cert), p'', gs)"
    by blast
  from d [rule_format, of "[(example_stor_down, 1500), (example_stor_down, 1600)]"]
  have e: "\<exists>p'' gs. Get_repeatedly [(example_stor_down, 1500), (example_stor_down, 1600)]
             ''example.com'' p' = Some ([Inr example_cert, Inr example_cert], p'', gs)"
    by (simp add: numeral_2_eq_2)
  from a b c e h1 h2 h3 h4 show ?thesis by auto
qed

text \<open>
  C7. When \<^verbatim>\<open>Get\<close> returns, the calls of \<^verbatim>\<open>Watch\<close> are those made before, followed,
  if and only if the result is a certificate, by one call with the key
  \<^verbatim>\<open>managed|\<close>\<open>certKey\<close> and a callback that, when run, is
  \<^verbatim>\<open>getManagedCertificate(certKey)\<close>. When the result is an error, no watch is added.
\<close>

theorem Get_registers_watch_on_success_only:
  assumes "Get st now certKey p = Some (r, p', gs)"
  shows "watches p' = watches p @
           (case r of
              Inl err \<Rightarrow> []
            | Inr tlscert \<Rightarrow>
                [\<lparr>watch_key = ''managed|'' @ certKey,
                  watch_refresh = GetManagedCertificateOf certKey\<rparr>]) \<and>
         run_refresh st' now' (GetManagedCertificateOf certKey) p'' =
           getManagedCertificate st' now' certKey p''"
  using assms
  by (auto simp: Get_eq the_watch_def OCSPKeyName_def
           split: option.splits sum.splits prod.splits
           dest: getManagedCertificate_watches)

text \<open>The witness: a first load that succeeds, and a first load that fails.\<close>

theorem Get_registers_watch_on_success_only_witness:
  "(\<exists>p'. Get example_stor_ok 1000 ''example.com'' NewManagedCertManager =
            Some (Inr (Certificate 2), p', []) \<and>
          watches p' = [\<lparr>watch_key = ''managed|example.com'',
                         watch_refresh = GetManagedCertificateOf ''example.com''\<rparr>]) \<and>
   (\<exists>p'. Get example_stor_down 1000 ''example.com'' NewManagedCertManager =
            Some (Inl ''managed: connection refused'', p', []) \<and>
          watches p' = [])"
proof -
  obtain p1 where g1: "Get example_stor_ok 1000 ''example.com'' NewManagedCertManager =
      Some (Inr (Certificate 2), p1, [])"
    by (simp add: Get_def run.simps Let_def NewManagedCertManager_def example_stor_ok_def
          managedCert_zero_def)
  obtain p2 where g2: "Get example_stor_down 1000 ''example.com'' NewManagedCertManager =
      Some (Inl ''managed: connection refused'', p2, [])"
    by (simp add: Get_def run.simps Let_def NewManagedCertManager_def example_stor_down_def
          managedCert_zero_def)
  have w: "watches NewManagedCertManager = []"
    by (simp add: NewManagedCertManager_def)
  from Get_registers_watch_on_success_only [OF g1] Get_registers_watch_on_success_only [OF g2]
    g1 g2 w
  show ?thesis by simp
qed

section \<open>Goroutines running concurrently: the invariant\<close>

lemma step_with_frame:
  "frame_of g = Some f \<Longrightarrow> \<forall>r. f \<noteq> Ret r \<Longrightarrow>
   step st now g p =
     (case step_frame st now f p of
        None \<Rightarrow> None
      | Some (f', p', new) \<Rightarrow> Some (with_frame g f', p', new))"
  by (cases g) (auto simp: step_Get_L40 split: option.splits)

lemma views_with_frame:
  "frame_of g = Some f \<Longrightarrow> holds (with_frame g f') = holds_frame f'"
  "frame_of g = Some f \<Longrightarrow> stored (with_frame g f') = stored_frame f'"
  "frame_of g = Some f \<Longrightarrow> good p (with_frame g f') = good_frame p f'"
  by (cases g; simp)+

lemma views_frame_of:
  "frame_of g = Some f \<Longrightarrow> holds g = holds_frame f"
  "frame_of g = Some f \<Longrightarrow> stored g = stored_frame f"
  "frame_of g = Some f \<Longrightarrow> good p g = good_frame p f"
  by (cases g; simp)+

lemma stored_holds: "stored g = Some k \<Longrightarrow> \<exists>a. holds g = Some a"
  by (cases g; cases "the (frame_of g)"; simp)

lemma good_stored:
  "good p g \<Longrightarrow> stored g = Some k \<Longrightarrow>
   \<exists>a. cache p k = Some a \<and> holds g = Some a \<and> \<not> populated p a \<and> cold_loaded k p"
  by (cases g; cases "the (frame_of g)"; simp)

text \<open>A goroutine that holds no mutex of \<open>a\<close> does not rely on the snapshot of \<open>a\<close> being nil.\<close>

lemma good_frame_mono:
  assumes "good_frame p f" and "wf_cache p"
    and "\<forall>k a. cache p k = Some a \<longrightarrow> cache p' k = Some a"
    and "next_addr p \<le> next_addr p'"
    and "\<forall>a<next_addr p. populated p a \<longrightarrow> populated p' a"
    and "\<forall>a<next_addr p. holds_frame f = Some a \<longrightarrow> populated p' a = populated p a"
    and "\<forall>k. stored_frame f = Some k \<longrightarrow> cold_loaded k p \<longrightarrow> cold_loaded k p'"
  shows "good_frame p' f"
  using assms by (cases f) (auto simp: wf_cache_def)

lemma good_mono:
  assumes "good p g" and "wf_cache p"
    and "\<forall>k a. cache p k = Some a \<longrightarrow> cache p' k = Some a"
    and "next_addr p \<le> next_addr p'"
    and "\<forall>a<next_addr p. populated p a \<longrightarrow> populated p' a"
    and "\<forall>a<next_addr p. holds g = Some a \<longrightarrow> populated p' a = populated p a"
    and "\<forall>k. stored g = Some k \<longrightarrow> cold_loaded k p \<longrightarrow> cold_loaded k p'"
  shows "good p' g"
proof (cases "frame_of g")
  case None
  then show ?thesis using assms by (cases g) (auto simp: wf_cache_def)
next
  case (Some f)
  then show ?thesis using assms good_frame_mono [of p f p']
    by (simp add: views_frame_of)
qed

lemma nth_upd_app:
  "j < length (gs[i := g'] @ new) \<Longrightarrow>
   (gs[i := g'] @ new) ! j =
     (if j < length gs then (if j = i then g' else gs ! j) else new ! (j - length gs))"
  by (simp add: nth_append)

text \<open>How the mutexes change in a step: not at all, or one is taken, or one is released.\<close>

lemma mutex_same:
  assumes "mutex p gs" and "i < length gs"
    and "\<forall>g\<in>set new. holds g = None"
    and "holds g' = holds (gs ! i)"
    and "\<forall>a. locked (heap p' a) = locked (heap p a)"
  shows "mutex p' (gs[i := g'] @ new)"
proof -
  have new: "holds (new ! n) = None" if "n < length new" for n
    using assms(3) that by simp
  have h: "holds ((gs[i := g'] @ new) ! j) = Some a \<longleftrightarrow> j < length gs \<and> holds (gs ! j) = Some a"
    if "j < length (gs[i := g'] @ new)" for j a
    using that assms(2,4) new [of "j - length gs"] by (auto simp: nth_append nth_list_update)
  have 1: "locked (heap p' a) \<longleftrightarrow>
             (\<exists>j<length (gs[i := g'] @ new). holds ((gs[i := g'] @ new) ! j) = Some a)" for a
  proof -
    have "locked (heap p' a) \<longleftrightarrow> (\<exists>j<length gs. holds (gs ! j) = Some a)"
      using assms(1,5) unfolding mutex_def by simp
    also have "\<dots> \<longleftrightarrow> (\<exists>j<length (gs[i := g'] @ new). holds ((gs[i := g'] @ new) ! j) = Some a)"
      using h by (metis length_append length_list_update trans_less_add1)
    finally show ?thesis .
  qed
  have 2: "j = l" if "j < length (gs[i := g'] @ new)" "l < length (gs[i := g'] @ new)"
      "holds ((gs[i := g'] @ new) ! j) = Some a" "holds ((gs[i := g'] @ new) ! l) = Some a"
    for j l a
    using assms(1) h that unfolding mutex_def by blast
  show ?thesis unfolding mutex_def using 1 2 by blast
qed

lemma mutex_lock:
  assumes "mutex p gs" and "i < length gs"
    and "holds (gs ! i) = None" and "holds g' = Some a"
    and "\<not> locked (heap p a)" and "locked (heap p' a)"
    and "\<forall>b. b \<noteq> a \<longrightarrow> locked (heap p' b) = locked (heap p b)"
  shows "mutex p' (gs[i := g'])"
proof -
  have none: "holds (gs ! j) \<noteq> Some a" if "j < length gs" for j
    using assms(1,5) that unfolding mutex_def by blast
  have h: "holds (gs[i := g'] ! j) = Some b \<longleftrightarrow>
             (if j = i then b = a else holds (gs ! j) = Some b)"
    if "j < length gs" for j b
    using that assms(2,4) by (auto simp: nth_list_update)
  have 1: "locked (heap p' b) \<longleftrightarrow> (\<exists>j<length (gs[i := g']). holds (gs[i := g'] ! j) = Some b)"
    for b
  proof (cases "b = a")
    case True
    then show ?thesis using assms(2,6) h [of i a] by auto
  next
    case False
    have "locked (heap p' b) \<longleftrightarrow> (\<exists>j<length gs. holds (gs ! j) = Some b)"
      using False assms(1,7) unfolding mutex_def by simp
    also have "\<dots> \<longleftrightarrow> (\<exists>j<length gs. holds (gs[i := g'] ! j) = Some b)"
      using h False assms(3) by (metis option.distinct(1))
    finally show ?thesis by simp
  qed
  have 2: "j = l" if "j < length (gs[i := g'])" "l < length (gs[i := g'])"
      "holds (gs[i := g'] ! j) = Some b" "holds (gs[i := g'] ! l) = Some b" for j l b
  proof -
    have jl: "j < length gs" "l < length gs" using that by simp_all
    show ?thesis
    proof (cases "b = a")
      case True
      then show ?thesis using that(3,4) h [OF jl(1), of b] h [OF jl(2), of b] none jl
        by (metis (full_types))
    next
      case False
      then have "holds (gs ! j) = Some b" "holds (gs ! l) = Some b"
        using that(3,4) h [OF jl(1), of b] h [OF jl(2), of b] by (metis (full_types))+
      then show ?thesis using assms(1) jl unfolding mutex_def by blast
    qed
  qed
  show ?thesis unfolding mutex_def using 1 2 by blast
qed

lemma mutex_unlock:
  assumes "mutex p gs" and "i < length gs"
    and "holds (gs ! i) = Some a" and "holds g' = None"
    and "\<not> locked (heap p' a)"
    and "\<forall>b. b \<noteq> a \<longrightarrow> locked (heap p' b) = locked (heap p b)"
  shows "mutex p' (gs[i := g'])"
proof -
  have only: "j = i" if "j < length gs" "holds (gs ! j) = Some a" for j
    using assms(1,2,3) that unfolding mutex_def by blast
  have h: "holds (gs[i := g'] ! j) = Some b \<longleftrightarrow> j \<noteq> i \<and> holds (gs ! j) = Some b"
    if "j < length gs" for j b
    using that assms(2,4) by (auto simp: nth_list_update)
  have 1: "locked (heap p' b) \<longleftrightarrow> (\<exists>j<length (gs[i := g']). holds (gs[i := g'] ! j) = Some b)"
    for b
  proof (cases "b = a")
    case True
    then show ?thesis using assms(5) h only by auto
  next
    case False
    have "locked (heap p' b) \<longleftrightarrow> (\<exists>j<length gs. holds (gs ! j) = Some b)"
      using False assms(1,6) unfolding mutex_def by simp
    also have "\<dots> \<longleftrightarrow> (\<exists>j<length gs. holds (gs[i := g'] ! j) = Some b)"
      using h False assms(3) by (metis option.inject)
    finally show ?thesis by simp
  qed
  have 2: "j = l" if "j < length (gs[i := g'])" "l < length (gs[i := g'])"
      "holds (gs[i := g'] ! j) = Some b" "holds (gs[i := g'] ! l) = Some b" for j l b
  proof -
    have jl: "j < length gs" "l < length gs" using that by simp_all
    have "holds (gs ! j) = Some b" "holds (gs ! l) = Some b"
      using that(3,4) h [OF jl(1), of b] h [OF jl(2), of b] by simp_all
    then show ?thesis using assms(1) jl unfolding mutex_def by blast
  qed
  show ?thesis unfolding mutex_def using 1 2 by blast
qed

text \<open>Two goroutines that hold the same mutex are the same goroutine.\<close>

lemma mutex_alone:
  "mutex p gs \<Longrightarrow> i < length gs \<Longrightarrow> j < length gs \<Longrightarrow>
   holds (gs ! i) = Some a \<Longrightarrow> holds (gs ! j) = Some a \<Longrightarrow> j = i"
  unfolding mutex_def by blast

lemma good_all_step:
  assumes "i < length gs" and "good p' g'" and "\<forall>n\<in>set new. good p' n"
    and "\<forall>j<length gs. j \<noteq> i \<longrightarrow> good p' (gs ! j)"
  shows "\<forall>j<length (gs[i := g'] @ new). good p' ((gs[i := g'] @ new) ! j)"
proof (intro allI impI)
  fix j assume j: "j < length (gs[i := g'] @ new)"
  show "good p' ((gs[i := g'] @ new) ! j)"
  proof (cases "j < length gs")
    case True
    then show ?thesis using assms by (cases "j = i") (simp_all add: nth_append)
  next
    case False
    then have "(gs[i := g'] @ new) ! j \<in> set new" using j by (simp add: nth_append)
    then show ?thesis using assms(3) by blast
  qed
qed

lemma stored_update:
  assumes "i < length gs"
  shows "(\<exists>j<length (gs[i := g'] @ new). stored ((gs[i := g'] @ new) ! j) = Some k) \<longleftrightarrow>
         stored g' = Some k \<or> (\<exists>j<length gs. j \<noteq> i \<and> stored (gs ! j) = Some k) \<or>
         (\<exists>n\<in>set new. stored n = Some k)"
proof -
  have "(\<exists>j<length (gs[i := g'] @ new). stored ((gs[i := g'] @ new) ! j) = Some k) \<longleftrightarrow>
        (\<exists>x\<in>set (gs[i := g'] @ new). stored x = Some k)"
    by (metis in_set_conv_nth)
  also have "\<dots> \<longleftrightarrow> (\<exists>x\<in>set (gs[i := g']). stored x = Some k) \<or> (\<exists>n\<in>set new. stored n = Some k)"
    by auto
  also have "(\<exists>x\<in>set (gs[i := g']). stored x = Some k) \<longleftrightarrow>
             (\<exists>j<length gs. stored (gs[i := g'] ! j) = Some k)"
    by (metis in_set_conv_nth length_list_update)
  also have "\<dots> \<longleftrightarrow> stored g' = Some k \<or> (\<exists>j<length gs. j \<noteq> i \<and> stored (gs ! j) = Some k)"
    using assms by (metis nth_list_update_eq nth_list_update_neq)
  finally show ?thesis by blast
qed

text \<open>Steps that leave the log of cold loads alone and turn no snapshot from or to nil.\<close>

lemma log_ok_keep:
  assumes "log_ok p gs" and "i < length gs"
    and "stored g' = stored (gs ! i)"
    and "\<forall>k. cold_calls k p' = cold_calls k p"
    and "\<forall>k a. cache p k = Some a \<longrightarrow>
           cache p' k = Some a \<and> populated p' a = populated p a"
    and "\<forall>k a. cache p' k = Some a \<longrightarrow> cache p k = Some a \<or> \<not> populated p' a"
  shows "log_ok p' (gs[i := g'] @ new)"
proof -
  have cl: "cold_loaded k p' = cold_loaded k p" for k
    using assms(4) by (simp add: cold_loaded_def)
  have st: "\<exists>j<length (gs[i := g'] @ new). stored ((gs[i := g'] @ new) ! j) = Some k"
    if "\<exists>j<length gs. stored (gs ! j) = Some k" for k
  proof -
    from that obtain j where j: "j < length gs" "stored (gs ! j) = Some k" by blast
    have "stored g' = Some k \<or> (\<exists>j<length gs. j \<noteq> i \<and> stored (gs ! j) = Some k)"
    proof (cases "j = i")
      case True
      then show ?thesis using j assms(3) by simp
    next
      case False
      then show ?thesis using j by blast
    qed
    then show ?thesis unfolding stored_update [OF assms(2)] by blast
  qed
  have 1: "list_all (\<lambda>c. \<not> call_ok c) (butlast (cold_calls k p'))" for k
    using assms(1,4) unfolding log_ok_def by simp
  have 2: "(\<exists>a. cache p' k = Some a \<and> populated p' a) \<or>
          (\<exists>j<length (gs[i := g'] @ new). stored ((gs[i := g'] @ new) ! j) = Some k)"
    if "cold_loaded k p'" for k
  proof -
    from that have "cold_loaded k p" by (simp add: cl)
    with assms(1) have "(\<exists>a. cache p k = Some a \<and> populated p a) \<or>
          (\<exists>j<length gs. stored (gs ! j) = Some k)"
      unfolding log_ok_def by blast
    then show ?thesis
    proof
      assume "\<exists>a. cache p k = Some a \<and> populated p a"
      then obtain a where a: "cache p k = Some a" "populated p a" by blast
      with assms(5) have "cache p' k = Some a \<and> populated p' a" by auto
      then show ?thesis by blast
    next
      assume "\<exists>j<length gs. stored (gs ! j) = Some k"
      then show ?thesis using st by blast
    qed
  qed
  have 3: "cold_loaded k p'" if "cache p' k = Some a" "populated p' a" for k a
  proof -
    from that assms(6) have c: "cache p k = Some a" by blast
    with that assms(5) have "populated p a" by auto
    with c assms(1) have "cold_loaded k p" unfolding log_ok_def by blast
    then show ?thesis by (simp add: cl)
  qed
  show ?thesis unfolding log_ok_def using 1 2 3 by blast
qed

lemma cold_calls_append:
  "cold_calls k' (p\<lparr>stor_calls := stor_calls p @ [\<lparr>call_from = ColdLoad, call_key = k, call_ok = ok\<rparr>]\<rparr>) =
     (if k' = k then cold_calls k p @ [\<lparr>call_from = ColdLoad, call_key = k, call_ok = ok\<rparr>]
      else cold_calls k' p)"
  by (auto simp: cold_calls_def)

lemma cold_loaded_append:
  "cold_loaded k' (p\<lparr>stor_calls := stor_calls p @ [\<lparr>call_from = ColdLoad, call_key = k, call_ok = ok\<rparr>]\<rparr>) =
     (if k' = k then ok else cold_loaded k' p)"
  by (simp add: cold_loaded_def cold_calls_append)

lemma not_loaded_all_failed:
  assumes "list_all (\<lambda>c. \<not> call_ok c) (butlast cs)"
    and "\<not> (case rev cs of [] \<Rightarrow> False | c # cs' \<Rightarrow> call_ok c)"
  shows "list_all (\<lambda>c. \<not> call_ok c) cs"
proof (cases cs rule: rev_cases)
  case Nil
  then show ?thesis by simp
next
  case (snoc xs x)
  then show ?thesis using assms by simp
qed

text \<open>Line 76: a cold load of a key none of whose cold loads has succeeded.\<close>

lemma log_ok_cold:
  assumes "log_ok p gs" and "i < length gs"
    and "\<not> cold_loaded k p"
    and "stored (gs ! i) = None"
    and "ok \<longrightarrow> stored g' = Some k"
    and p': "p' = p\<lparr>stor_calls := stor_calls p @
                     [\<lparr>call_from = ColdLoad, call_key = k, call_ok = ok\<rparr>]\<rparr>"
  shows "log_ok p' (gs[i := g'] @ [])"
proof -
  have st: "\<exists>j<length (gs[i := g'] @ []). stored ((gs[i := g'] @ []) ! j) = Some k'"
    if "\<exists>j<length gs. stored (gs ! j) = Some k'" for k'
  proof -
    from that obtain j where j: "j < length gs" "stored (gs ! j) = Some k'" by blast
    then have "j \<noteq> i" using assms(4) by auto
    then show ?thesis unfolding stored_update [OF assms(2)] using j by blast
  qed
  have me: "ok \<Longrightarrow> \<exists>j<length (gs[i := g'] @ []). stored ((gs[i := g'] @ []) ! j) = Some k"
    unfolding stored_update [OF assms(2)] using assms(5) by blast
  show ?thesis
    unfolding log_ok_def
  proof (intro allI conjI impI)
    fix k'
    show "list_all (\<lambda>c. \<not> call_ok c) (butlast (cold_calls k' p'))"
    proof (cases "k' = k")
      case True
      have "list_all (\<lambda>c. \<not> call_ok c) (cold_calls k p)"
        using assms(1,3) not_loaded_all_failed [of "cold_calls k p"]
        unfolding log_ok_def cold_loaded_def by blast
      then show ?thesis using True by (simp add: p' cold_calls_append)
    next
      case False
      then show ?thesis using assms(1) unfolding log_ok_def by (simp add: p' cold_calls_append)
    qed
    show "(\<exists>a. cache p' k' = Some a \<and> populated p' a) \<or>
          (\<exists>j<length (gs[i := g'] @ []). stored ((gs[i := g'] @ []) ! j) = Some k')"
      if "cold_loaded k' p'"
    proof (cases "k' = k")
      case True
      then have ok using that by (simp add: p' cold_loaded_append)
      then show ?thesis using me True by blast
    next
      case False
      then have "cold_loaded k' p" using that by (simp add: p' cold_loaded_append)
      then have "(\<exists>a. cache p k' = Some a \<and> populated p a) \<or>
          (\<exists>j<length gs. stored (gs ! j) = Some k')"
        using assms(1) unfolding log_ok_def by blast
      then show ?thesis using st by (auto simp: p' populated_def)
    qed
    show "cold_loaded k' p'" if "cache p' k' = Some a" "populated p' a" for a
    proof -
      from that have "cold_loaded k' p" using assms(1) unfolding log_ok_def by (auto simp: p' populated_def)
      then show ?thesis using assms(3) by (auto simp: p' cold_loaded_append)
    qed
  qed
qed

text \<open>Line 80: the certificate of the cold load that succeeded is stored.\<close>

lemma log_ok_store:
  assumes "log_ok p gs" and "wf_cache p" and "i < length gs"
    and "cache p k = Some a" and "cold_loaded k p"
    and "stored g' = None" and "stored (gs ! i) = Some k"
    and p': "p' = p\<lparr>heap := (heap p)(a := (heap p a)\<lparr>cert := Some c\<rparr>)\<rparr>"
  shows "log_ok p' (gs[i := g'] @ [])"
proof -
  have cl: "cold_loaded k' p' = cold_loaded k' p" for k'
    by (simp add: p' cold_loaded_def cold_calls_def)
  have st: "\<exists>j<length (gs[i := g'] @ []). stored ((gs[i := g'] @ []) ! j) = Some k'"
    if "\<exists>j<length gs. stored (gs ! j) = Some k'" "stored (gs ! i) \<noteq> Some k'" for k'
  proof -
    from that obtain j where j: "j < length gs" "stored (gs ! j) = Some k'" by blast
    then have "j \<noteq> i" using that(2) by auto
    then show ?thesis unfolding stored_update [OF assms(3)] using j by blast
  qed
  show ?thesis
    unfolding log_ok_def
  proof (intro allI conjI impI)
    fix k'
    show "list_all (\<lambda>c. \<not> call_ok c) (butlast (cold_calls k' p'))"
      using assms(1) unfolding log_ok_def by (simp add: p' cold_calls_def)
    show "(\<exists>a. cache p' k' = Some a \<and> populated p' a) \<or>
          (\<exists>j<length (gs[i := g'] @ []). stored ((gs[i := g'] @ []) ! j) = Some k')"
      if "cold_loaded k' p'"
    proof (cases "k' = k")
      case True
      then show ?thesis using assms(4) by (simp add: p' populated_def)
    next
      case False
      from that have "(\<exists>a. cache p k' = Some a \<and> populated p a) \<or>
          (\<exists>j<length gs. stored (gs ! j) = Some k')"
        using assms(1) unfolding log_ok_def cl by blast
      then show ?thesis
      proof
        assume "\<exists>a. cache p k' = Some a \<and> populated p a"
        then show ?thesis by (auto simp: p' populated_def)
      next
        assume w: "\<exists>j<length gs. stored (gs ! j) = Some k'"
        show ?thesis
        proof (cases "stored (gs ! i) = Some k'")
          case True
          then show ?thesis using False assms(7) by simp
        next
          case False
          then show ?thesis using st w by blast
        qed
      qed
    qed
    show "cold_loaded k' p'" if "cache p' k' = Some a'" "populated p' a'" for a'
    proof (cases "a' = a")
      case True
      then have "k' = k" using that(1) assms(2,4) unfolding wf_cache_def by (auto simp: p' populated_def)
      then show ?thesis using assms(5) cl by simp
    next
      case False
      then show ?thesis using that assms(1) unfolding log_ok_def cl by (auto simp: p' populated_def)
    qed
  qed
qed

lemma invar_iff:
  "invar \<lparr>shared = p, goroutines = gs\<rparr> \<longleftrightarrow>
     wf_cache p \<and> (\<forall>i<length gs. good p (gs ! i)) \<and> mutex p gs \<and> log_ok p gs"
  by (simp add: invar_def)

lemma good_view_eq:
  assumes "cache p' = cache p" and "next_addr p' = next_addr p"
    and "\<forall>a. populated p' a = populated p a"
    and "\<forall>k. cold_calls k p' = cold_calls k p"
  shows "good p' g = good p g"
proof (cases "frame_of g")
  case None
  then show ?thesis using assms by (cases g) simp_all
next
  case (Some f)
  have "good_frame p' f = good_frame p f"
    using assms by (cases f) (simp_all add: cold_loaded_def)
  then show ?thesis using Some by (simp add: views_frame_of)
qed

lemma good_holds_bound:
  "good p g \<Longrightarrow> wf_cache p \<Longrightarrow> holds g = Some a \<Longrightarrow> a < next_addr p"
  by (cases g; cases "the (frame_of g)"; auto simp: wf_cache_def)

text \<open>A step that changes nothing the invariant looks at.\<close>

lemma invar_keep:
  assumes "invar \<lparr>shared = p, goroutines = gs\<rparr>" and "i < length gs"
    and "cache p' = cache p" and "next_addr p' = next_addr p"
    and "\<forall>a. populated p' a = populated p a"
    and "\<forall>a. locked (heap p' a) = locked (heap p a)"
    and "\<forall>k. cold_calls k p' = cold_calls k p"
    and "holds g' = holds (gs ! i)" and "stored g' = stored (gs ! i)"
    and "good p g'" and "\<forall>n\<in>set new. good p n \<and> holds n = None"
  shows "invar \<lparr>shared = p', goroutines = gs[i := g'] @ new\<rparr>"
proof -
  from assms(1) have wf: "wf_cache p" and gd: "\<forall>j<length gs. good p (gs ! j)"
    and mx: "mutex p gs" and lg: "log_ok p gs"
    by (simp_all add: invar_iff)
  have ge: "good p' g = good p g" for g
    using assms(3,4,5,7) by (rule good_view_eq)
  have 1: "wf_cache p'" using wf assms(3,4) by (simp add: wf_cache_def)
  have 2: "\<forall>j<length (gs[i := g'] @ new). good p' ((gs[i := g'] @ new) ! j)"
    using assms(2,10,11) gd by (intro good_all_step) (simp_all add: ge)
  have nh: "\<forall>n\<in>set new. holds n = None" using assms(11) by blast
  have 3: "mutex p' (gs[i := g'] @ new)"
    by (rule mutex_same [OF mx assms(2) nh assms(8) assms(6)])
  have 4: "log_ok p' (gs[i := g'] @ new)"
    using lg assms(2,9,7) by (rule log_ok_keep) (simp_all add: assms(3,5))
  show ?thesis using 1 2 3 4 by (simp add: invar_iff)
qed

text \<open>\<^verbatim>\<open>Lock()\<close> on a free mutex.\<close>

lemma invar_lock:
  assumes "invar \<lparr>shared = p, goroutines = gs\<rparr>" and "i < length gs"
    and "\<not> locked (heap p a)"
    and "holds (gs ! i) = None" and "holds g' = Some a"
    and "stored g' = stored (gs ! i)" and "good p g'"
    and p': "p' = p\<lparr>heap := (heap p)(a := (heap p a)\<lparr>locked := True\<rparr>)\<rparr>"
  shows "invar \<lparr>shared = p', goroutines = gs[i := g'] @ []\<rparr>"
proof -
  from assms(1) have wf: "wf_cache p" and gd: "\<forall>j<length gs. good p (gs ! j)"
    and mx: "mutex p gs" and lg: "log_ok p gs"
    by (simp_all add: invar_iff)
  have ge: "good p' g = good p g" for g
    by (rule good_view_eq) (simp_all add: p' populated_def cold_calls_def)
  have 1: "wf_cache p'" using wf by (simp add: wf_cache_def p')
  have 2: "\<forall>j<length (gs[i := g'] @ []). good p' ((gs[i := g'] @ []) ! j)"
    using assms(2,7) gd by (intro good_all_step) (simp_all add: ge)
  have 3: "mutex p' (gs[i := g'])"
    using mx assms(2,4,5,3) by (rule mutex_lock) (simp_all add: p')
  have 4: "log_ok p' (gs[i := g'] @ [])"
    using lg assms(2,6) by (rule log_ok_keep) (simp_all add: p' populated_def cold_calls_def)
  show ?thesis using 1 2 3 4 by (simp add: invar_iff)
qed

text \<open>The deferred \<^verbatim>\<open>Unlock()\<close>.\<close>

lemma invar_unlock:
  assumes "invar \<lparr>shared = p, goroutines = gs\<rparr>" and "i < length gs"
    and "holds (gs ! i) = Some a" and "holds g' = None"
    and "stored g' = stored (gs ! i)" and "good p g'"
    and p': "p' = p\<lparr>heap := (heap p)(a := (heap p a)\<lparr>locked := False\<rparr>)\<rparr>"
  shows "invar \<lparr>shared = p', goroutines = gs[i := g'] @ []\<rparr>"
proof -
  from assms(1) have wf: "wf_cache p" and gd: "\<forall>j<length gs. good p (gs ! j)"
    and mx: "mutex p gs" and lg: "log_ok p gs"
    by (simp_all add: invar_iff)
  have ge: "good p' g = good p g" for g
    by (rule good_view_eq) (simp_all add: p' populated_def cold_calls_def)
  have 1: "wf_cache p'" using wf by (simp add: wf_cache_def p')
  have 2: "\<forall>j<length (gs[i := g'] @ []). good p' ((gs[i := g'] @ []) ! j)"
    using assms(2,6) gd by (intro good_all_step) (simp_all add: ge)
  have 3: "mutex p' (gs[i := g'])"
    using mx assms(2,3,4) by (rule mutex_unlock) (simp_all add: p')
  have 4: "log_ok p' (gs[i := g'] @ [])"
    using lg assms(2,5) by (rule log_ok_keep) (simp_all add: p' populated_def cold_calls_def)
  show ?thesis using 1 2 3 4 by (simp add: invar_iff)
qed

text \<open>Line 68: a struct is allocated, and entered in the map if the key has no entry.\<close>

lemma invar_alloc:
  assumes "invar \<lparr>shared = p, goroutines = gs\<rparr>" and "i < length gs"
    and "holds (gs ! i) = None" and "holds g' = None"
    and "stored g' = stored (gs ! i)" and "good p' g'"
    and p1: "p1 = p\<lparr>heap := (heap p)(next_addr p := managedCert_zero),
                      next_addr := Suc (next_addr p)\<rparr>"
    and p': "p' = (case cache p k of
                     Some a \<Rightarrow> p1
                   | None \<Rightarrow> p1\<lparr>cache := (cache p)(k \<mapsto> next_addr p)\<rparr>)"
  shows "invar \<lparr>shared = p', goroutines = gs[i := g'] @ []\<rparr>"
proof -
  from assms(1) have wf: "wf_cache p" and gd: "\<forall>j<length gs. good p (gs ! j)"
    and mx: "mutex p gs" and lg: "log_ok p gs"
    by (simp_all add: invar_iff)
  have bound: "a < next_addr p" if "cache p k' = Some a" for k' a
    using wf that unfolding wf_cache_def by blast
  have nx: "next_addr p' = Suc (next_addr p)"
    by (simp add: p' p1 split: option.splits)
  have ch: "cache p' k' = Some a" if "cache p k' = Some a" for k' a
    using that by (auto simp: p' p1 split: option.splits)
  have ch': "cache p k' = Some a \<or> a = next_addr p" if "cache p' k' = Some a" for k' a
    using that by (auto simp: p' p1 split: option.splits if_splits)
  have pop: "populated p' a = populated p a" if "a < next_addr p" for a
    using that by (auto simp: p' p1 populated_def split: option.splits)
  have npop: "\<not> populated p' (next_addr p)"
    by (auto simp: p' p1 populated_def managedCert_zero_def split: option.splits)
  have cc: "cold_calls k' p' = cold_calls k' p" for k'
    by (auto simp: p' p1 cold_calls_def split: option.splits)
  have cl: "cold_loaded k' p' = cold_loaded k' p" for k'
    by (simp add: cold_loaded_def cc)
  have free: "\<not> locked (heap p (next_addr p))"
  proof
    assume "locked (heap p (next_addr p))"
    then obtain j where j: "j < length gs" "holds (gs ! j) = Some (next_addr p)"
      using mx unfolding mutex_def by blast
    with gd wf have "next_addr p < next_addr p" by (blast intro: good_holds_bound)
    then show False by simp
  qed
  have lk: "\<forall>a. locked (heap p' a) = locked (heap p a)"
    using free by (auto simp: p' p1 managedCert_zero_def split: option.splits)
  have 1: "wf_cache p'"
    unfolding wf_cache_def
  proof (intro conjI allI impI)
    fix k' a assume "cache p' k' = Some a"
    then show "a < next_addr p'" using ch' [of k' a] bound [of k' a] nx by auto
  next
    fix k1 k2 a assume a: "cache p' k1 = Some a" "cache p' k2 = Some a"
    show "k1 = k2"
    proof (cases "a = next_addr p")
      case True
      then have "cache p k1 \<noteq> Some a" "cache p k2 \<noteq> Some a"
        using bound [of k1 a] bound [of k2 a] by auto
      then show ?thesis using a by (auto simp: p' p1 split: option.splits if_splits)
    next
      case False
      then have "cache p k1 = Some a" "cache p k2 = Some a"
        using a ch' by blast+
      then show ?thesis using wf unfolding wf_cache_def by blast
    qed
  qed
  have others: "good p' g" if "good p g" for g
    using that wf
  proof (rule good_mono)
    show "\<forall>k a. cache p k = Some a \<longrightarrow> cache p' k = Some a" using ch by blast
    show "next_addr p \<le> next_addr p'" using nx by simp
    show "\<forall>a<next_addr p. populated p a \<longrightarrow> populated p' a" using pop by blast
    show "\<forall>a<next_addr p. holds g = Some a \<longrightarrow> populated p' a = populated p a"
      using pop by blast
    show "\<forall>k. stored g = Some k \<longrightarrow> cold_loaded k p \<longrightarrow> cold_loaded k p'"
      using cl by blast
  qed
  have 2: "\<forall>j<length (gs[i := g'] @ []). good p' ((gs[i := g'] @ []) ! j)"
    using assms(2,6) gd others by (intro good_all_step) simp_all
  have h: "holds g' = holds (gs ! i)" using assms(3,4) by simp
  have 3: "mutex p' (gs[i := g'] @ [])"
    by (rule mutex_same [OF mx assms(2) _ h lk]) simp
  have 4: "log_ok p' (gs[i := g'] @ [])"
    using lg assms(2,5)
  proof (rule log_ok_keep)
    show "\<forall>k. cold_calls k p' = cold_calls k p" using cc by blast
    show "\<forall>k a. cache p k = Some a \<longrightarrow>
            cache p' k = Some a \<and> populated p' a = populated p a"
      using ch pop bound by blast
    show "\<forall>k a. cache p' k = Some a \<longrightarrow> cache p k = Some a \<or> \<not> populated p' a"
      using ch' npop by blast
  qed
  show ?thesis using 1 2 3 4 by (simp add: invar_iff)
qed

text \<open>
  Line 76. The goroutine holds the mutex of the entry and has seen its snapshot nil, so
  no cold load of the key has succeeded: a certificate that a cold load returned is in
  the entry, or on its way there in a goroutine that holds the same mutex.
\<close>

lemma invar_cold:
  assumes "invar \<lparr>shared = p, goroutines = gs\<rparr>" and "i < length gs"
    and "cache p k = Some a" and "\<not> populated p a"
    and "holds (gs ! i) = Some a" and "stored (gs ! i) = None"
    and "holds g' = Some a" and "ok \<longrightarrow> stored g' = Some k" and "good p' g'"
    and p': "p' = p\<lparr>stor_calls := stor_calls p @
                     [\<lparr>call_from = ColdLoad, call_key = k, call_ok = ok\<rparr>]\<rparr>"
  shows "invar \<lparr>shared = p', goroutines = gs[i := g'] @ []\<rparr>"
proof -
  from assms(1) have wf: "wf_cache p" and gd: "\<forall>j<length gs. good p (gs ! j)"
    and mx: "mutex p gs" and lg: "log_ok p gs"
    by (simp_all add: invar_iff)
  have nobody: "stored (gs ! j) \<noteq> Some k" if "j < length gs" for j
  proof
    assume s: "stored (gs ! j) = Some k"
    from gd that have "good p (gs ! j)" by blast
    from good_stored [OF this s] assms(3) have "holds (gs ! j) = Some a" by auto
    from mutex_alone [OF mx assms(2) that assms(5) this] have "j = i" .
    with s assms(6) show False by simp
  qed
  have nl: "\<not> cold_loaded k p"
  proof
    assume "cold_loaded k p"
    with lg have "(\<exists>a. cache p k = Some a \<and> populated p a) \<or>
                  (\<exists>j<length gs. stored (gs ! j) = Some k)"
      unfolding log_ok_def by blast
    then show False using assms(3,4) nobody by auto
  qed
  have 1: "wf_cache p'" using wf by (simp add: wf_cache_def p')
  have others: "good p' (gs ! j)" if "j < length gs" for j
  proof -
    from gd that have "good p (gs ! j)" by blast
    then show ?thesis using wf
    proof (rule good_mono)
      show "\<forall>k'. stored (gs ! j) = Some k' \<longrightarrow> cold_loaded k' p \<longrightarrow> cold_loaded k' p'"
        using nobody [OF that] by (auto simp: p' cold_loaded_append)
    qed (simp_all add: p' populated_def)
  qed
  have 2: "\<forall>j<length (gs[i := g'] @ []). good p' ((gs[i := g'] @ []) ! j)"
    using assms(2,9) others by (intro good_all_step) simp_all
  have h: "holds g' = holds (gs ! i)" using assms(5,7) by simp
  have 3: "mutex p' (gs[i := g'] @ [])"
    by (rule mutex_same [OF mx assms(2) _ h]) (simp_all add: p')
  have 4: "log_ok p' (gs[i := g'] @ [])"
    by (rule log_ok_cold [OF lg assms(2) nl assms(6) assms(8) p'])
  show ?thesis using 1 2 3 4 by (simp add: invar_iff)
qed

text \<open>Line 80: the snapshot of the entry, nil so far, is set.\<close>

lemma invar_store:
  assumes "invar \<lparr>shared = p, goroutines = gs\<rparr>" and "i < length gs"
    and "cache p k = Some a" and "cold_loaded k p"
    and "holds (gs ! i) = Some a" and "stored (gs ! i) = Some k"
    and "holds g' = Some a" and "stored g' = None" and "good p' g'"
    and p': "p' = p\<lparr>heap := (heap p)(a := (heap p a)\<lparr>cert := Some c\<rparr>)\<rparr>"
  shows "invar \<lparr>shared = p', goroutines = gs[i := g'] @ []\<rparr>"
proof -
  from assms(1) have wf: "wf_cache p" and gd: "\<forall>j<length gs. good p (gs ! j)"
    and mx: "mutex p gs" and lg: "log_ok p gs"
    by (simp_all add: invar_iff)
  have 1: "wf_cache p'" using wf by (simp add: wf_cache_def p')
  have others: "good p' (gs ! j)" if "j < length gs" "j \<noteq> i" for j
  proof -
    have nh: "holds (gs ! j) \<noteq> Some a"
      using mutex_alone [OF mx assms(2) that(1) assms(5)] that(2) by blast
    from gd that have "good p (gs ! j)" by blast
    then show ?thesis using wf
    proof (rule good_mono)
      show "\<forall>b<next_addr p. holds (gs ! j) = Some b \<longrightarrow> populated p' b = populated p b"
        using nh by (auto simp: p' populated_def)
    qed (auto simp: p' populated_def cold_loaded_def cold_calls_def)
  qed
  have 2: "\<forall>j<length (gs[i := g'] @ []). good p' ((gs[i := g'] @ []) ! j)"
    using assms(2,9) others by (intro good_all_step) simp_all
  have h: "holds g' = holds (gs ! i)" using assms(5,7) by simp
  have 3: "mutex p' (gs[i := g'] @ [])"
    by (rule mutex_same [OF mx assms(2) _ h]) (simp_all add: p')
  have 4: "log_ok p' (gs[i := g'] @ [])"
    by (rule log_ok_store [OF lg wf assms(2) assms(3) assms(4) assms(8) assms(6) p'])
  show ?thesis using 1 2 3 4 by (simp add: invar_iff)
qed

text \<open>Every line of \<^verbatim>\<open>getManagedCertificate\<close> keeps the invariant.\<close>

lemma invar_frame_step:
  assumes inv: "invar \<lparr>shared = p, goroutines = gs\<rparr>" and i: "i < length gs"
    and fr: "frame_of (gs ! i) = Some f"
    and st: "step_frame st now f p = Some (f', p', new)"
  shows "invar \<lparr>shared = p', goroutines = gs[i := with_frame (gs ! i) f'] @ new\<rparr>"
proof -
  note V = views_with_frame [OF fr] views_frame_of [OF fr]
  from inv i have "good p (gs ! i)" by (simp add: invar_iff)
  then have gf: "good_frame p f" by (simp add: V)
  from inv have wf: "wf_cache p" by (simp add: invar_iff)
  show ?thesis
  proof (cases f)
    case (L54 k)
    with st have "p' = p" "new = []" "f' = L68 k \<or> (\<exists>a. f' = L57 k a \<and> cache p k = Some a)"
      by (auto split: option.splits)
    then show ?thesis using L54
      by (intro invar_keep [OF inv i]) (auto simp: V)
  next
    case (L57 k a)
    with st have "p' = p" "new = []"
      "f' = L68 k \<or> (\<exists>c. f' = L59 k a c \<and> cert (heap p a) = Some c)"
      by (auto split: option.splits)
    then show ?thesis using L57 gf
      by (intro invar_keep [OF inv i]) (auto simp: V populated_def)
  next
    case (L59 k a c)
    with st have "p' = p" "new = []" "f' = L60 k a c \<or> f' = Ret (Inr c)"
      by (auto split: if_splits)
    then show ?thesis using L59 gf
      by (intro invar_keep [OF inv i]) (auto simp: V)
  next
    case (L60 k a c)
    with st have "p' = p" "new = []" "f' = L61 k a c \<or> f' = Ret (Inr c)"
      by (auto split: if_splits)
    then show ?thesis using L60 gf
      by (intro invar_keep [OF inv i]) (auto simp: V)
  next
    case (L61 k a c)
    with st have "p' = p" "new = [Reload_L86 a k]" "f' = Ret (Inr c)"
      by auto
    then show ?thesis using L61 gf
      by (intro invar_keep [OF inv i]) (auto simp: V)
  next
    case (L68 k)
    define p1 where "p1 = p\<lparr>heap := (heap p)(next_addr p := managedCert_zero),
                             next_addr := Suc (next_addr p)\<rparr>"
    have p': "p' = (case cache p k of
                      Some a \<Rightarrow> p1
                    | None \<Rightarrow> p1\<lparr>cache := (cache p)(k \<mapsto> next_addr p)\<rparr>)"
      and new: "new = []"
      and f': "f' = L70 k (case cache p k of Some a \<Rightarrow> a | None \<Rightarrow> next_addr p)"
      using st L68 by (auto simp: Let_def p1_def split: option.splits)
    have "good_frame p' f'"
      by (auto simp: p' f' p1_def split: option.splits)
    then show ?thesis unfolding new using L68
      by (intro invar_alloc [OF inv i _ _ _ _ p1_def p']) (simp_all add: V f')
  next
    case (L70 k a)
    with st have nl: "\<not> locked (heap p a)"
      and p': "p' = p\<lparr>heap := (heap p)(a := (heap p a)\<lparr>locked := True\<rparr>)\<rparr>"
      and new: "new = []" and f': "f' = L73 k a"
      by (auto split: if_splits)
    show ?thesis unfolding new using L70 gf
      by (intro invar_lock [OF inv i nl _ _ _ _ p']) (simp_all add: V f')
  next
    case (L73 k a)
    with st have "p' = p" "new = []"
      "f' = L76 k a \<and> cert (heap p a) = None \<or> (\<exists>c. f' = Unlock_Ret a (Inr c))"
      by (auto split: option.splits)
    moreover have "a < next_addr p" using gf L73 wf by (auto simp: wf_cache_def)
    ultimately show ?thesis using L73 gf
      by (intro invar_keep [OF inv i]) (auto simp: V populated_def)
  next
    case (L76 k a)
    from gf L76 have c: "cache p k = Some a" and np: "\<not> populated p a" by simp_all
    have b: "a < next_addr p" using c wf by (auto simp: wf_cache_def)
    obtain ok where p': "p' = p\<lparr>stor_calls := stor_calls p @
                     [\<lparr>call_from = ColdLoad, call_key = k, call_ok = ok\<rparr>]\<rparr>"
      and new: "new = []"
      and f': "if ok then (\<exists>c. f' = L80 k a c) else (\<exists>e. f' = Unlock_Ret a (Inl e))"
      using st L76 by (auto split: sum.splits)
    have g': "good_frame p' f'"
      using f' c np b by (auto simp: p' populated_def cold_loaded_append split: if_splits)
    have h': "holds_frame f' = Some a" and s': "ok \<longrightarrow> stored_frame f' = Some k"
      using f' by (auto split: if_splits)
    show ?thesis unfolding new using L76
      by (intro invar_cold [OF inv i c np _ _ _ _ _ p']) (simp_all add: V h' s' g')
  next
    case (L80 k a c)
    from gf L80 have ca: "cache p k = Some a" and cl: "cold_loaded k p" by simp_all
    from st L80 have p': "p' = p\<lparr>heap := (heap p)(a := (heap p a)\<lparr>cert := Some c\<rparr>)\<rparr>"
      and new: "new = []" and f': "f' = L81 k a c"
      by auto
    show ?thesis unfolding new using L80 ca
      by (intro invar_store [OF inv i ca cl _ _ _ _ _ p']) (simp_all add: V f' p')
  next
    case (L81 k a c)
    with st have p': "p' = p\<lparr>heap := (heap p)(a := (heap p a)\<lparr>loadAt := now\<rparr>)\<rparr>"
      and new: "new = []" and f': "f' = Unlock_Ret a (Inr c)"
      by auto
    have "a < next_addr p" using gf L81 wf by (auto simp: wf_cache_def)
    then show ?thesis unfolding new using L81
      by (intro invar_keep [OF inv i])
         (simp_all add: V f' p' populated_def cold_calls_def)
  next
    case (Unlock_Ret a r)
    with st have p': "p' = p\<lparr>heap := (heap p)(a := (heap p a)\<lparr>locked := False\<rparr>)\<rparr>"
      and new: "new = []" and f': "f' = Ret r"
      by auto
    show ?thesis unfolding new using Unlock_Ret
      by (intro invar_unlock [OF inv i _ _ _ _ p']) (simp_all add: V f')
  next
    case (Ret r)
    with st show ?thesis by simp
  qed
qed

text \<open>So does every step of a goroutine.\<close>

lemma invar_goroutine_step:
  assumes inv: "invar \<lparr>shared = p, goroutines = gs\<rparr>" and i: "i < length gs"
    and st: "step st now (gs ! i) p = Some (g', p', new)"
  shows "invar \<lparr>shared = p', goroutines = gs[i := g'] @ new\<rparr>"
proof (cases "frame_of (gs ! i)")
  case (Some f)
  show ?thesis
  proof (cases "\<exists>r. f = Ret r")
    case True
    then obtain r where r: "f = Ret r" by blast
    with Some st obtain k where g: "gs ! i = Get_L40 k (Ret r)"
      by (cases "gs ! i") auto
    with st have "p' = p" "new = []" "holds g' = None" "stored g' = None" "good p g'"
      by (cases r; auto)+
    then show ?thesis using g
      by (intro invar_keep [OF inv i]) simp_all
  next
    case False
    then have nr: "\<forall>r. f \<noteq> Ret r" by blast
    from st obtain f' where f': "step_frame st now f p = Some (f', p', new)"
      and g': "g' = with_frame (gs ! i) f'"
      unfolding step_with_frame [OF Some nr] by (auto split: option.splits)
    show ?thesis unfolding g' by (rule invar_frame_step [OF inv i Some f'])
  qed
next
  case None
  from inv i have gd: "good p (gs ! i)" by (simp add: invar_iff)
  from inv have wf: "wf_cache p" by (simp add: invar_iff)
  show ?thesis
  proof (cases "gs ! i")
    case (Get_L40 k f)
    with None show ?thesis by simp
  next
    case (Get_L46 k c)
    with st have "p' = p\<lparr>watches := watches p @ [the_watch k]\<rparr>" "new = []"
      "g' = Get_Ret (Inr c)"
      by (auto simp: the_watch_def)
    then show ?thesis using Get_L46
      by (intro invar_keep [OF inv i]) (simp_all add: populated_def cold_calls_def)
  next
    case (Get_Ret r)
    with st show ?thesis by simp
  next
    case (Callback f)
    with None show ?thesis by simp
  next
    case (Reload_L86 a k)
    from gd Reload_L86 have c: "cache p k = Some a" and pp: "populated p a" by simp_all
    have b: "a < next_addr p" using c wf by (auto simp: wf_cache_def)
    obtain ok where p': "p' = p\<lparr>stor_calls := stor_calls p @
                     [\<lparr>call_from = BackgroundReload, call_key = k, call_ok = ok\<rparr>]\<rparr>"
      and new: "new = []"
      and g': "(\<exists>e. g' = Reload_L88 k e) \<or> (\<exists>c. g' = Reload_L91 a c)"
      using st Reload_L86 by (auto split: sum.splits)
    have "good p g'" "holds g' = None" "stored g' = None"
      using g' b pp by auto
    then show ?thesis unfolding new using Reload_L86
      by (intro invar_keep [OF inv i]) (simp_all add: p' populated_def cold_calls_def)
  next
    case (Reload_L88 k e)
    with st have "p' = p\<lparr>warnings := warnings p @ [warning k e]\<rparr>" "new = []"
      "g' = Reload_Ret"
      by auto
    then show ?thesis using Reload_L88
      by (intro invar_keep [OF inv i]) (simp_all add: populated_def cold_calls_def)
  next
    case (Reload_L91 a c)
    with st have nl: "\<not> locked (heap p a)"
      and p': "p' = p\<lparr>heap := (heap p)(a := (heap p a)\<lparr>locked := True\<rparr>)\<rparr>"
      and new: "new = []" and g': "g' = Reload_L93 a c"
      by (auto split: if_splits)
    show ?thesis unfolding new using Reload_L91 gd
      by (intro invar_lock [OF inv i nl _ _ _ _ p']) (simp_all add: g')
  next
    case (Reload_L93 a c)
    with st have p': "p' = p\<lparr>heap := (heap p)(a := (heap p a)\<lparr>cert := Some c\<rparr>)\<rparr>"
      and new: "new = []" and g': "g' = Reload_L94 a"
      by auto
    from gd Reload_L93 have "a < next_addr p" "populated p a" by simp_all
    then show ?thesis unfolding new using Reload_L93
      by (intro invar_keep [OF inv i]) (auto simp: g' p' populated_def cold_calls_def)
  next
    case (Reload_L94 a)
    with st have p': "p' = p\<lparr>heap := (heap p)(a := (heap p a)\<lparr>loadAt := now\<rparr>)\<rparr>"
      and new: "new = []" and g': "g' = Reload_Unlock a"
      by auto
    from gd Reload_L94 have "a < next_addr p" by simp
    then show ?thesis unfolding new using Reload_L94
      by (intro invar_keep [OF inv i]) (auto simp: g' p' populated_def cold_calls_def)
  next
    case (Reload_Unlock a)
    with st have p': "p' = p\<lparr>heap := (heap p)(a := (heap p a)\<lparr>locked := False\<rparr>)\<rparr>"
      and new: "new = []" and g': "g' = Reload_Ret"
      by auto
    show ?thesis unfolding new using Reload_Unlock
      by (intro invar_unlock [OF inv i _ _ _ _ p']) (simp_all add: g')
  next
    case Reload_Ret
    with st show ?thesis by simp
  qed
qed

lemma invar_sys_step:
  assumes "invar s"
  shows "invar (sys_step ch s)"
proof -
  obtain i st now where ch: "ch = (i, st, now)" by (cases ch)
  obtain p gs where s: "s = \<lparr>shared = p, goroutines = gs\<rparr>" by (cases s) auto
  show ?thesis
  proof (cases "i < length gs")
    case True
    show ?thesis
    proof (cases "step st now (gs ! i) p")
      case None
      then show ?thesis using assms True by (simp add: ch s)
    next
      case (Some x)
      obtain g' p' new where x: "x = (g', p', new)" by (cases x)
      from invar_goroutine_step [OF assms [unfolded s] True Some [unfolded x]]
      show ?thesis using True Some x by (simp add: ch s)
    qed
  next
    case False
    then show ?thesis using assms by (simp add: ch s)
  qed
qed

lemma invar_sys_run:
  "invar s \<Longrightarrow> invar (sys_run sched s)"
  unfolding sys_run_def
  by (induction sched arbitrary: s) (simp_all add: invar_sys_step)

text \<open>A new manager with goroutines that have not started satisfies the invariant.\<close>

lemma entry_point_views:
  "entry_point g \<Longrightarrow> good p g \<and> holds g = None \<and> stored g = None"
  by (cases g; cases "the (frame_of g)"; simp)

lemma invar_init:
  assumes "list_all entry_point gs"
  shows "invar \<lparr>shared = NewManagedCertManager, goroutines = gs\<rparr>"
proof -
  have v: "good p (gs ! i) \<and> holds (gs ! i) = None \<and> stored (gs ! i) = None"
    if "i < length gs" for i p
    using assms that by (intro entry_point_views) (simp add: list_all_length)
  have 1: "wf_cache NewManagedCertManager"
    by (simp add: wf_cache_def NewManagedCertManager_def)
  have 2: "mutex NewManagedCertManager gs"
    unfolding mutex_def using v
    by (auto simp: NewManagedCertManager_def managedCert_zero_def)
  have 3: "log_ok NewManagedCertManager gs"
    unfolding log_ok_def
    by (simp add: NewManagedCertManager_def cold_calls_def cold_loaded_def populated_def
          managedCert_zero_def)
  show ?thesis using 1 2 3 v by (simp add: invar_iff)
qed

lemma good_mngCert:
  "good p g \<Longrightarrow> mngCert_of g = Some (k, a) \<Longrightarrow> cache p k = Some a"
  by (cases g; cases "the (frame_of g)"; simp)

text \<open>While the storage answers every load of a key, every logged call for the key succeeded.\<close>

lemma step_frame_calls_ok:
  assumes "step_frame st now f p = Some (f', p', new)" and "succeeds st k"
    and "list_all (\<lambda>c. call_key c = k \<longrightarrow> call_ok c) (stor_calls p)"
  shows "list_all (\<lambda>c. call_key c = k \<longrightarrow> call_ok c) (stor_calls p')"
  using assms
  by (cases f) (auto simp: Let_def succeeds_def split: option.splits if_splits sum.splits)

lemma step_calls_ok:
  assumes "step st now g p = Some (g', p', new)" and "succeeds st k"
    and "list_all (\<lambda>c. call_key c = k \<longrightarrow> call_ok c) (stor_calls p)"
  shows "list_all (\<lambda>c. call_key c = k \<longrightarrow> call_ok c) (stor_calls p')"
proof (cases "frame_of g")
  case (Some f)
  show ?thesis
  proof (cases "\<exists>r. f = Ret r")
    case True
    then obtain r where "f = Ret r" by blast
    with Some assms show ?thesis by (cases g; cases r; auto)
  next
    case False
    then have "\<forall>r. f \<noteq> Ret r" by blast
    from assms(1) [unfolded step_with_frame [OF Some this]] assms(2,3)
    show ?thesis by (auto split: option.splits dest: step_frame_calls_ok)
  qed
next
  case None
  with assms show ?thesis
    by (cases g) (auto simp: succeeds_def split: sum.splits if_splits)
qed

lemma sys_run_calls_ok:
  assumes "list_all (\<lambda>(i, st, now). succeeds st k) sched"
    and "list_all (\<lambda>c. call_key c = k \<longrightarrow> call_ok c) (stor_calls (shared s))"
  shows "list_all (\<lambda>c. call_key c = k \<longrightarrow> call_ok c) (stor_calls (shared (sys_run sched s)))"
  using assms unfolding sys_run_def
proof (induction sched arbitrary: s)
  case Nil
  then show ?case by simp
next
  case (Cons ch sched)
  obtain i st now where ch: "ch = (i, st, now)" by (cases ch)
  have "list_all (\<lambda>c. call_key c = k \<longrightarrow> call_ok c) (stor_calls (shared (sys_step ch s)))"
    using Cons.prems ch by (auto split: option.splits dest: step_calls_ok)
  then show ?case using Cons.prems by (simp add: Cons.IH)
qed

lemma all_failed_all_ok:
  assumes "list_all (\<lambda>c. \<not> call_ok c) (butlast cs)" and "list_all call_ok cs"
  shows "length cs \<le> 1"
proof (cases cs rule: rev_cases)
  case Nil
  then show ?thesis by simp
next
  case (snoc xs x)
  with assms have "list_all (\<lambda>c. \<not> call_ok c) xs" "list_all call_ok xs" by simp_all
  then have "xs = []" by (cases xs) auto
  then show ?thesis using snoc by simp
qed

text \<open>
  Mutual exclusion, in every state that the goroutines can reach from a new manager: two
  goroutines between \<^verbatim>\<open>Lock()\<close> and the deferred unlock of the same entry are the same
  goroutine.
\<close>

lemma mutual_exclusion:
  assumes "list_all entry_point gs0"
    and "s = sys_run sched \<lparr>shared = NewManagedCertManager, goroutines = gs0\<rparr>"
    and "i < length (goroutines s)" and "j < length (goroutines s)"
    and "holds (goroutines s ! i) = Some a" and "holds (goroutines s ! j) = Some a"
  shows "i = j"
proof -
  have "invar s"
    unfolding assms(2) using assms(1) by (intro invar_sys_run invar_init)
  then have "mutex (shared s) (goroutines s)" by (simp add: invar_def)
  from mutex_alone [OF this assms(4,3,6,5)] show ?thesis .
qed

text \<open>
  C6 (as amended). Goroutines start on a new manager, each at the first line of
  \<^verbatim>\<open>Get\<close> or of a refresh callback, for any keys, and run under any schedule, with any
  clock readings and storage answers. Then, for every key: each goroutine that works on
  the key has the one entry that the map holds for it; in the sequence of cold loads of
  the key every call but the last has failed, so at most one succeeds and none follows
  it; if the storage fails no load of the key, there is at most one cold load, and
  exactly one once the entry has a snapshot.
\<close>

theorem cold_load_succeeds_at_most_once:
  assumes "list_all entry_point gs0"
    and "s = sys_run sched \<lparr>shared = NewManagedCertManager, goroutines = gs0\<rparr>"
  shows "(\<forall>g\<in>set (goroutines s). \<forall>a. mngCert_of g = Some (k, a) \<longrightarrow>
            cache (shared s) k = Some a) \<and>
         list_all (\<lambda>c. \<not> call_ok c) (butlast (cold_calls k (shared s))) \<and>
         (list_all (\<lambda>(i, st, now). succeeds st k) sched \<longrightarrow>
            length (cold_calls k (shared s)) \<le> 1 \<and>
            (\<forall>a. cache (shared s) k = Some a \<longrightarrow> cert (heap (shared s) a) \<noteq> None \<longrightarrow>
               length (cold_calls k (shared s)) = 1))"
proof -
  have "invar s"
    unfolding assms(2) using assms(1) by (intro invar_sys_run invar_init)
  then have gd: "\<forall>i<length (goroutines s). good (shared s) (goroutines s ! i)"
    and lg: "log_ok (shared s) (goroutines s)"
    by (simp_all add: invar_def)
  have 1: "cache (shared s) k = Some a" if "g \<in> set (goroutines s)" "mngCert_of g = Some (k, a)"
    for g a
    using that gd by (metis good_mngCert in_set_conv_nth)
  have 2: "list_all (\<lambda>c. \<not> call_ok c) (butlast (cold_calls k (shared s)))"
    using lg unfolding log_ok_def by blast
  have 3: "length (cold_calls k (shared s)) \<le> 1"
    if ok: "list_all (\<lambda>(i, st, now). succeeds st k) sched"
  proof -
    have "list_all (\<lambda>c. call_key c = k \<longrightarrow> call_ok c) (stor_calls (shared s))"
      unfolding assms(2) using ok
      by (rule sys_run_calls_ok) (simp add: NewManagedCertManager_def)
    then have "list_all call_ok (cold_calls k (shared s))"
      by (simp add: cold_calls_def list_all_iff)
    with 2 show ?thesis by (rule all_failed_all_ok)
  qed
  have 4: "cold_calls k (shared s) \<noteq> []"
    if "cache (shared s) k = Some a" "cert (heap (shared s) a) \<noteq> None" for a
  proof -
    from that lg have "cold_loaded k (shared s)"
      unfolding log_ok_def populated_def by blast
    then show ?thesis by (auto simp: cold_loaded_def)
  qed
  have 5: "length (cold_calls k (shared s)) = 1"
    if "list_all (\<lambda>(i, st, now). succeeds st k) sched"
      "cache (shared s) k = Some a" "cert (heap (shared s) a) \<noteq> None" for a
    using 3 [OF that(1)] 4 [OF that(2,3)]
    by (cases "cold_calls k (shared s)") simp_all
  show ?thesis using 1 2 3 5 by blast
qed

text \<open>
  The witness: in the first example schedule both calls return the certificate of the one
  cold load.
\<close>

theorem cold_load_succeeds_at_most_once_witness:
  "list_all entry_point (goroutines example_system) \<and>
   list_all (\<lambda>(i, st, now). succeeds st ''example.com'') example_schedule \<and>
   goroutines (sys_run example_schedule example_system) =
     [Get_Ret (Inr (Certificate 2)), Get_Ret (Inr (Certificate 2))] \<and>
   cache (shared (sys_run example_schedule example_system)) ''example.com'' = Some 0 \<and>
   cert (heap (shared (sys_run example_schedule example_system)) 0) = Some (Certificate 2) \<and>
   length (cold_calls ''example.com'' (shared (sys_run example_schedule example_system))) = 1"
proof -
  have e: "list_all entry_point (goroutines example_system)"
    by (simp add: example_system_def)
  have s: "sys_run example_schedule example_system =
             sys_run example_schedule
               \<lparr>shared = NewManagedCertManager, goroutines = goroutines example_system\<rparr>"
    by (simp add: example_system_def)
  have ok: "list_all (\<lambda>(i, st, now). succeeds st ''example.com'') example_schedule"
    by (simp add: example_schedule_def succeeds_def example_stor_ok_def)
  have r: "goroutines (sys_run example_schedule example_system) =
             [Get_Ret (Inr (Certificate 2)), Get_Ret (Inr (Certificate 2))] \<and>
           cache (shared (sys_run example_schedule example_system)) ''example.com'' = Some 0 \<and>
           cert (heap (shared (sys_run example_schedule example_system)) 0) =
             Some (Certificate 2)"
    by (simp add: example_schedule_def example_system_def sys_run_def
          NewManagedCertManager_def example_stor_ok_def managedCert_zero_def Let_def)
  from cold_load_succeeds_at_most_once [OF e s, of "''example.com''"] ok r
  have "length (cold_calls ''example.com'' (shared (sys_run example_schedule example_system))) = 1"
    by simp
  with e ok r show ?thesis by simp
qed

text \<open>
  C6 as stated fails when a load fails: the entry stays empty and the next caller loads
  again. In the second example schedule the two concurrent first calls of \<^verbatim>\<open>Get\<close> make
  two calls of \<^verbatim>\<open>LoadCertificateFromStore\<close> for the key.
\<close>

theorem concurrent_first_Gets_load_twice:
  "list_all entry_point (goroutines example_system) \<and>
   shared example_system = NewManagedCertManager \<and>
   goroutines (sys_run example_schedule_failing example_system) =
     [Get_Ret (Inl ''managed: connection refused''), Get_Ret (Inr (Certificate 2))] \<and>
   stor_calls (shared (sys_run example_schedule_failing example_system)) =
     [\<lparr>call_from = ColdLoad, call_key = ''example.com'', call_ok = False\<rparr>,
      \<lparr>call_from = ColdLoad, call_key = ''example.com'', call_ok = True\<rparr>] \<and>
   length (cold_calls ''example.com''
             (shared (sys_run example_schedule_failing example_system))) = 2"
  by (simp add: example_schedule_failing_def example_system_def sys_run_def
        NewManagedCertManager_def example_stor_ok_def example_stor_down_def
        managedCert_zero_def Let_def cold_calls_def)

end
